theory Spec2Isabelle
  imports Main
begin

section \<open>JSON values and tree nodes\<close>

text \<open>
  The data that \<open>JSON.parse\<close> returns. A number is a double: a finite one (no function
  modelled here computes with it, so an integer stands for its payload, \<open>Finite 0\<close> being
  the zero \<open>+0\<close>), the zero \<open>-0\<close> (the text \<open>-0\<close>), or an infinite one (a text such as
  \<open>1e400\<close>). An object is the list of its entries in the order \<open>Object.entries\<close>
  enumerates them.
\<close>

datatype number = Finite int | NegZero | PosInfinity | NegInfinity

datatype json =
    JNull
  | JBool bool
  | JNum number
  | JStr string
  | JArr "json list"
  | JObj "(string \<times> json) list"

text \<open>The six strings of the \<open>type\<close> field of a node.\<close>

datatype jstype = TObject | TArray | TString | TNumber | TBoolean | TNull

text \<open>The interface \<open>JsonNode\<close>; an optional field is an \<open>option\<close>.\<close>

datatype node = Node
  (key: string)
  (val: json)
  (ntype: jstype)
  (path: string)
  (level: nat)
  (index: "nat option")
  (expanded: "bool option")
  (children: "node list option")

subsection \<open>Numbers as decimal strings\<close>

definition digit_char :: "nat \<Rightarrow> char" where
  "digit_char d = ''0123456789'' ! d"

definition is_digit :: "char \<Rightarrow> bool" where
  "is_digit c = (c \<in> set ''0123456789'')"

definition digit_val :: "char \<Rightarrow> nat" where
  "digit_val c = of_char c - 48"

text \<open>\<open>index.toString()\<close> of a non-negative integer.\<close>

function toString :: "nat \<Rightarrow> string" where
  "toString n = (if n < 10 then [digit_char n] else toString (n div 10) @ [digit_char (n mod 10)])"
  by pat_completeness auto
termination
  by (relation "measure id") auto

declare toString.simps [simp del]

text \<open>\<open>parseInt\<close> on a string of decimal digits.\<close>

definition parseInt :: "string \<Rightarrow> nat" where
  "parseInt s = foldl (\<lambda>a c. 10 * a + digit_val c) 0 s"

subsection \<open>toJsonTree\<close>

fun typeof :: "json \<Rightarrow> jstype" where
  "typeof JNull = TObject"
| "typeof (JBool _) = TBoolean"
| "typeof (JNum _) = TNumber"
| "typeof (JStr _) = TString"
| "typeof (JArr _) = TObject"
| "typeof (JObj _) = TObject"

fun isArray :: "json \<Rightarrow> bool" where
  "isArray (JArr _) = True"
| "isArray _ = False"

text \<open>
  \<open>Array.isArray(item) ? 'array' : typeof item === 'object' && item !== null ? 'object'
  : typeof item\<close>
\<close>

definition nodeType :: "json \<Rightarrow> jstype" where
  "nodeType item =
     (if isArray item then TArray
      else if typeof item = TObject \<and> item \<noteq> JNull then TObject
      else typeof item)"

definition indexPath :: "string \<Rightarrow> nat \<Rightarrow> string" where
  "indexPath parentPath i =
     (if parentPath \<noteq> [] then parentPath @ ''['' @ toString i @ '']''
      else ''['' @ toString i @ '']'')"

definition fieldPath :: "string \<Rightarrow> string \<Rightarrow> string" where
  "fieldPath parentPath k = (if parentPath \<noteq> [] then parentPath @ ''.'' @ k else k)"

text \<open>
  \<open>toJsonTree(data, parentPath, level)\<close>; \<open>arrayNodes\<close> is the \<open>forEach\<close> over an array
  from a given index on, \<open>objectNodes\<close> the \<open>forEach\<close> over \<open>Object.entries\<close>.
\<close>

fun toJsonTree :: "json \<Rightarrow> string \<Rightarrow> nat \<Rightarrow> node list"
  and arrayNodes :: "nat \<Rightarrow> json list \<Rightarrow> string \<Rightarrow> nat \<Rightarrow> node list"
  and objectNodes :: "(string \<times> json) list \<Rightarrow> string \<Rightarrow> nat \<Rightarrow> node list"
where
  "toJsonTree (JArr items) parentPath lvl = arrayNodes 0 items parentPath lvl"
| "toJsonTree (JObj entries) parentPath lvl = objectNodes entries parentPath lvl"
| "toJsonTree JNull parentPath lvl = []"
| "toJsonTree (JBool _) parentPath lvl = []"
| "toJsonTree (JNum _) parentPath lvl = []"
| "toJsonTree (JStr _) parentPath lvl = []"
| "arrayNodes i [] parentPath lvl = []"
| "arrayNodes i (item # rest) parentPath lvl =
     Node (toString i) item (nodeType item) (indexPath parentPath i) lvl (Some i)
       (Some (lvl < 2))
       (if nodeType item = TObject \<or> nodeType item = TArray
        then Some (toJsonTree item (indexPath parentPath i) (lvl + 1)) else None)
     # arrayNodes (i + 1) rest parentPath lvl"
| "objectNodes [] parentPath lvl = []"
| "objectNodes ((k, v) # rest) parentPath lvl =
     Node k v (nodeType v) (fieldPath parentPath k) lvl None
       (Some (lvl < 2))
       (if nodeType v = TObject \<or> nodeType v = TArray
        then Some (toJsonTree v (fieldPath parentPath k) (lvl + 1)) else None)
     # objectNodes rest parentPath lvl"

subsection \<open>fromJsonTree\<close>

text \<open>
  What \<open>fromJsonTree\<close> builds. Its \<open>result\<close> starts as \<open>[]\<close>, since
  \<open>Array.isArray(nodes)\<close> holds of every \<open>JsonNode[]\<close>, and each node assigns
  \<open>result[node.key]\<close>: an array index when the key is a canonical decimal numeral (the
  array grows, with holes), a named property of the array object otherwise. \<open>Plain v\<close> is
  a stored \<open>node.value\<close> used verbatim; \<open>Built elems props\<close> is such an array object, with
  \<open>None\<close> for a hole. The model puts no bound on the length of an array, and it takes
  the keys \<open>length\<close> and \<open>__proto__\<close>, which an array object treats in a way of its
  own, as named properties like any other.
\<close>

datatype jsres =
    Plain json
  | Built "jsres option list" "(string \<times> jsres) list"

definition is_array_index :: "string \<Rightarrow> bool" where
  "is_array_index s = (s \<noteq> [] \<and> list_all is_digit s \<and> (s = ''0'' \<or> hd s \<noteq> CHR ''0''))"

definition set_elem :: "nat \<Rightarrow> 'a \<Rightarrow> 'a option list \<Rightarrow> 'a option list" where
  "set_elem i x es =
     (if i < length es then es[i := Some x]
      else es @ replicate (i - length es) None @ [Some x])"

fun set_prop :: "string \<Rightarrow> 'a \<Rightarrow> (string \<times> 'a) list \<Rightarrow> (string \<times> 'a) list" where
  "set_prop k x [] = [(k, x)]"
| "set_prop k x ((k', y) # ps) = (if k = k' then (k, x) # ps else (k', y) # set_prop k x ps)"

text \<open>\<open>result[key] = x\<close> on an array object.\<close>

definition assign :: "string \<Rightarrow> 'a \<Rightarrow> 'a option list \<times> (string \<times> 'a) list
    \<Rightarrow> 'a option list \<times> (string \<times> 'a) list" where
  "assign k x r =
     (if is_array_index k then (set_elem (parseInt k) x (fst r), snd r)
      else (fst r, set_prop k x (snd r)))"

text \<open>
  The \<open>forEach\<close> of \<open>fromJsonTree\<close> with the array object built so far;
  \<open>node.children && node.expanded\<close> holds when the children are present and the flag
  is \<open>true\<close>.
\<close>

fun fromNodes :: "node list \<Rightarrow> jsres option list \<times> (string \<times> jsres) list
    \<Rightarrow> jsres option list \<times> (string \<times> jsres) list" where
  "fromNodes [] r = r"
| "fromNodes (Node k v ty p l i e cs # ns) r =
     fromNodes ns
       (assign k
          (case cs of
             Some ch \<Rightarrow>
               (if e = Some True
                then (case fromNodes ch ([], []) of (es, ps) \<Rightarrow> Built es ps)
                else Plain v)
           | None \<Rightarrow> Plain v)
          r)"

definition fromJsonTree :: "node list \<Rightarrow> jsres" where
  "fromJsonTree nodes = (case fromNodes nodes ([], []) of (es, ps) \<Rightarrow> Built es ps)"

text \<open>
  Deep equality with a JSON value: \<open>reify r\<close> is the JSON value that \<open>r\<close> is deep-equal
  to, when there is one (an array with a hole or with a named property equals none).
\<close>

fun reify :: "jsres \<Rightarrow> json option"
  and reify_elems :: "jsres option list \<Rightarrow> json list option"
where
  "reify (Plain v) = Some v"
| "reify (Built es ps) = (if ps = [] then map_option JArr (reify_elems es) else None)"
| "reify_elems [] = Some []"
| "reify_elems (None # es) = None"
| "reify_elems (Some r # es) =
     (case reify r of
        None \<Rightarrow> None
      | Some v \<Rightarrow> map_option (Cons v) (reify_elems es))"

subsection \<open>findNodeByPath and the toggle of the editor\<close>

fun findNodeByPath :: "node list \<Rightarrow> string \<Rightarrow> node option" where
  "findNodeByPath [] p = None"
| "findNodeByPath (Node k v ty pa l i e cs # ns) p =
     (if pa = p then Some (Node k v ty pa l i e cs)
      else (case cs of
              Some ch \<Rightarrow>
                (case findNodeByPath ch p of
                   Some found \<Rightarrow> Some found
                 | None \<Rightarrow> findNodeByPath ns p)
            | None \<Rightarrow> findNodeByPath ns p))"

text \<open>
  \<open>updateExpanded\<close> of \<open>toggleNode\<close> (the editor component): \<open>!node.expanded\<close> of an
  absent flag is \<open>true\<close>.
\<close>

fun updateExpanded :: "string \<Rightarrow> node list \<Rightarrow> node list" where
  "updateExpanded p [] = []"
| "updateExpanded p (Node k v ty pa l i e cs # ns) =
     (if pa = p then Node k v ty pa l i (Some (e \<noteq> Some True)) cs
      else (case cs of
              Some ch \<Rightarrow> Node k v ty pa l i e (Some (updateExpanded p ch))
            | None \<Rightarrow> Node k v ty pa l i e cs))
     # updateExpanded p ns"

definition toggleNode :: "string \<Rightarrow> node list \<Rightarrow> node list" where
  "toggleNode p prev = updateExpanded p prev"

section \<open>The edit engine\<close>

text \<open>
  \<open>JsonEditOperation\<close>, one constructor for each \<open>type\<close>, with the fields that the
  handler of that type reads: path, key and value for \<open>add\<close>, path and value for
  \<open>update\<close>, path for \<open>delete\<close>, path and new path for \<open>move\<close>. The key and the
  value are taken to be present (\<open>operation.key!\<close>), the value to be JSON data.
\<close>

datatype operation =
    Add string string json
  | Update string json
  | Delete string
  | Move string string

subsection \<open>String helpers of the engine\<close>

text \<open>\<open>s.lastIndexOf(c)\<close>: \<open>-1\<close> when \<open>c\<close> does not occur.\<close>

fun lastIndexOf :: "char \<Rightarrow> string \<Rightarrow> int" where
  "lastIndexOf c [] = -1"
| "lastIndexOf c (x # xs) =
     (let r = lastIndexOf c xs in
      if r \<ge> 0 then r + 1 else if x = c then 0 else -1)"

text \<open>\<open>s.substring(0, e)\<close>: a negative end counts as 0, an end beyond the string as its length.\<close>

definition substring0 :: "string \<Rightarrow> int \<Rightarrow> string" where
  "substring0 s e = take (nat (max 0 e)) s"

text \<open>\<open>s.split(c)\<close> for a one-character separator: never empty.\<close>

fun split :: "char \<Rightarrow> string \<Rightarrow> string list" where
  "split c [] = [[]]"
| "split c (x # xs) =
     (if x = c then [] # split c xs
      else (case split c xs of
              [] \<Rightarrow> [[x]]
            | w # ws \<Rightarrow> (x # w) # ws))"

text \<open>\<open>a.pop()\<close> as a value: the last element, \<open>undefined\<close> of an empty array.\<close>

definition pop :: "'a list \<Rightarrow> 'a option" where
  "pop xs = (if xs = [] then None else Some (last xs))"

subsection \<open>The handlers\<close>

text \<open>
  The handlers work on \<open>newRoot = JSON.parse(JSON.stringify(root))\<close>, a copy that
  shares no object with \<open>root\<close>. As a value the copy is the tree, but for the numbers
  that JSON text does not carry: \<open>JSON.stringify\<close> prints \<open>-0\<close> as \<open>0\<close> and an infinite
  number as \<open>null\<close>. A finite number is printed with digits that read back as the same
  number; strings, booleans, \<open>null\<close>, the order of entries and absent fields are kept.
\<close>

fun cloneNumber :: "number \<Rightarrow> json" where
  "cloneNumber (Finite n) = JNum (Finite n)"
| "cloneNumber NegZero = JNum (Finite 0)"
| "cloneNumber PosInfinity = JNull"
| "cloneNumber NegInfinity = JNull"

fun cloneValue :: "json \<Rightarrow> json"
  and cloneValues :: "json list \<Rightarrow> json list"
  and cloneEntries :: "(string \<times> json) list \<Rightarrow> (string \<times> json) list"
where
  "cloneValue JNull = JNull"
| "cloneValue (JBool b) = JBool b"
| "cloneValue (JNum n) = cloneNumber n"
| "cloneValue (JStr s) = JStr s"
| "cloneValue (JArr items) = JArr (cloneValues items)"
| "cloneValue (JObj entries) = JObj (cloneEntries entries)"
| "cloneValues [] = []"
| "cloneValues (item # rest) = cloneValue item # cloneValues rest"
| "cloneEntries [] = []"
| "cloneEntries ((k, v) # rest) = (k, cloneValue v) # cloneEntries rest"

fun cloneNodes :: "node list \<Rightarrow> node list" where
  "cloneNodes [] = []"
| "cloneNodes (Node k v ty pa l i e cs # ns) =
     Node k (cloneValue v) ty pa l i e
       (case cs of Some ch \<Rightarrow> Some (cloneNodes ch) | None \<Rightarrow> None)
     # cloneNodes ns"

definition cloneTree :: "node list \<Rightarrow> node list" where
  "cloneTree root = cloneNodes root"

text \<open>
  The handler of \<open>update\<close> assigns to the node that \<open>findNodeByPath\<close> returns, the first
  match in document order: \<open>assignFound\<close> is that assignment on the tree as a value.
\<close>

fun assignFound :: "node list \<Rightarrow> string \<Rightarrow> json \<Rightarrow> node list option" where
  "assignFound [] p x = None"
| "assignFound (Node k v ty pa l i e cs # ns) p x =
     (if pa = p then Some (Node k x (typeof x) pa l i e cs # ns)
      else (case cs of
              Some ch \<Rightarrow>
                (case assignFound ch p x of
                   Some ch' \<Rightarrow> Some (Node k v ty pa l i e (Some ch') # ns)
                 | None \<Rightarrow> map_option (Cons (Node k v ty pa l i e cs)) (assignFound ns p x))
            | None \<Rightarrow> map_option (Cons (Node k v ty pa l i e cs)) (assignFound ns p x)))"

definition addNode :: "node list \<Rightarrow> string \<Rightarrow> string \<Rightarrow> json \<Rightarrow> node list" where
  "addNode nodes opath okey ovalue =
     (let parentPath = substring0 opath (lastIndexOf CHR ''.'' opath) in
      if parentPath = []
      then nodes @ [Node okey ovalue (typeof ovalue) okey 0 None None None]
      else nodes)"

definition updateNode :: "node list \<Rightarrow> string \<Rightarrow> json \<Rightarrow> node list" where
  "updateNode nodes opath ovalue =
     (case findNodeByPath nodes opath of
        Some found \<Rightarrow>
          (case assignFound nodes opath ovalue of Some nodes' \<Rightarrow> nodes' | None \<Rightarrow> nodes)
      | None \<Rightarrow> nodes)"

definition deleteNode :: "node list \<Rightarrow> string \<Rightarrow> node list" where
  "deleteNode nodes opath =
     (let parentPath = substring0 opath (lastIndexOf CHR ''.'' opath);
          k = pop (split CHR ''.'' opath) in
      if parentPath = []
      then filter (\<lambda>n. Some (key n) \<noteq> k) nodes
      else nodes)"

definition moveNode :: "node list \<Rightarrow> string \<Rightarrow> string \<Rightarrow> node list" where
  "moveNode nodes opath newPath = nodes"

fun applyEdit :: "node list \<Rightarrow> operation \<Rightarrow> node list" where
  "applyEdit root (Add opath okey ovalue) = addNode (cloneTree root) opath okey ovalue"
| "applyEdit root (Update opath ovalue) = updateNode (cloneTree root) opath ovalue"
| "applyEdit root (Delete opath) = deleteNode (cloneTree root) opath"
| "applyEdit root (Move opath newPath) = moveNode (cloneTree root) opath newPath"

section \<open>Parsing and error positions\<close>

text \<open>
  \<open>JSON.parse\<close> belongs to the host engine, not to the program: \<open>parse\<close> is modelled on
  the outcome of the call in its \<open>try\<close> block, which either returns the data or throws
  an error that carries a message.
\<close>

datatype engine_outcome = Returned json | Threw string

datatype js_error = TypeError

record parseError =
  message :: string
  line :: nat
  column :: nat

record parseResult =
  data :: json
  error :: "parseError option"

definition newline :: char where
  "newline = CHR 0x0A"

fun stripPrefix :: "string \<Rightarrow> string \<Rightarrow> string option" where
  "stripPrefix [] s = Some s"
| "stripPrefix (p # ps) [] = None"
| "stripPrefix (p # ps) (c # cs) = (if p = c then stripPrefix ps cs else None)"

text \<open>
  \<open>e.message.match(/position (\d+)/)\<close>: the digits captured by the leftmost match
  (\<open>\d+\<close> is greedy), \<open>None\<close> for \<open>null\<close>.
\<close>

fun matchPosition :: "string \<Rightarrow> string option" where
  "matchPosition [] = None"
| "matchPosition (c # cs) =
     (case stripPrefix ''position '' (c # cs) of
        Some r \<Rightarrow>
          (if takeWhile is_digit r \<noteq> [] then Some (takeWhile is_digit r)
           else matchPosition cs)
      | None \<Rightarrow> matchPosition cs)"

text \<open>
  \<open>parse\<close>: reading \<open>lines[lines.length - 1].length\<close> of an empty \<open>lines\<close> would throw a
  \<open>TypeError\<close>, which is a branch of the model.
\<close>

definition parse :: "engine_outcome \<Rightarrow> string \<Rightarrow> js_error + parseResult" where
  "parse outcome jsonString =
     (case outcome of
        Returned d \<Rightarrow> Inr \<lparr>data = d, error = None\<rparr>
      | Threw msg \<Rightarrow>
          (let position = (case matchPosition msg of Some ds \<Rightarrow> parseInt ds | None \<Rightarrow> 0);
               lines = split newline (substring0 jsonString (int position))
           in case pop lines of
                None \<Rightarrow> Inl TypeError
              | Some l \<Rightarrow>
                  Inr \<lparr>data = JNull,
                       error = Some \<lparr>message = msg, line = length lines,
                                     column = length l + 1\<rparr>\<rparr>))"

section \<open>Path validation\<close>

text \<open>
  Regular expressions with the character classes \<open>\w\<close> and \<open>\d\<close>, matched by
  derivatives; \<open>test\<close> of a pattern anchored by \<open>^\<close> and \<open>$\<close> is a match of the whole
  string.
\<close>

datatype cls = Word | Digit | Lit char

datatype rx = Nul | Eps | Atom cls | Seq rx rx | Alt rx rx | Star rx

definition is_word_char :: "char \<Rightarrow> bool" where
  "is_word_char c =
     (c \<in> set ''abcdefghijklmnopqrstuvwxyzABCDEFGHIJKLMNOPQRSTUVWXYZ0123456789_'')"

fun in_cls :: "cls \<Rightarrow> char \<Rightarrow> bool" where
  "in_cls Word c = is_word_char c"
| "in_cls Digit c = is_digit c"
| "in_cls (Lit a) c = (a = c)"

fun nullable :: "rx \<Rightarrow> bool" where
  "nullable Nul = False"
| "nullable Eps = True"
| "nullable (Atom _) = False"
| "nullable (Seq r s) = (nullable r \<and> nullable s)"
| "nullable (Alt r s) = (nullable r \<or> nullable s)"
| "nullable (Star r) = True"

fun deriv :: "char \<Rightarrow> rx \<Rightarrow> rx" where
  "deriv c Nul = Nul"
| "deriv c Eps = Nul"
| "deriv c (Atom a) = (if in_cls a c then Eps else Nul)"
| "deriv c (Seq r s) =
     (if nullable r then Alt (Seq (deriv c r) s) (deriv c s) else Seq (deriv c r) s)"
| "deriv c (Alt r s) = Alt (deriv c r) (deriv c s)"
| "deriv c (Star r) = Seq (deriv c r) (Star r)"

fun matches :: "rx \<Rightarrow> string \<Rightarrow> bool" where
  "matches r [] = nullable r"
| "matches r (c # cs) = matches (deriv c r) cs"

definition Plus :: "rx \<Rightarrow> rx" where
  "Plus r = Seq r (Star r)"

text \<open>\<open>(\w+|\[\d+\])\<close>\<close>

definition segmentRx :: rx where
  "segmentRx =
     Alt (Plus (Atom Word))
         (Seq (Atom (Lit CHR ''['')) (Seq (Plus (Atom Digit)) (Atom (Lit CHR '']''))))"

text \<open>\<open>/^(\w+|\[\d+\])(\.(\w+|\[\d+\]))*$/.test(path)\<close>\<close>

definition validatePath :: "string \<Rightarrow> bool" where
  "validatePath p = matches (Seq segmentRx (Star (Seq (Atom (Lit CHR ''.'')) segmentRx))) p"

section \<open>Notions that the properties are stated with\<close>



text \<open>The values and trees without \<open>-0\<close> and without an infinite number.\<close>

fun plainNumber :: "number \<Rightarrow> bool" where
  "plainNumber (Finite n) = True"
| "plainNumber NegZero = False"
| "plainNumber PosInfinity = False"
| "plainNumber NegInfinity = False"

fun plainValue :: "json \<Rightarrow> bool"
  and plainValues :: "json list \<Rightarrow> bool"
  and plainEntries :: "(string \<times> json) list \<Rightarrow> bool"
where
  "plainValue JNull = True"
| "plainValue (JBool b) = True"
| "plainValue (JNum n) = plainNumber n"
| "plainValue (JStr s) = True"
| "plainValue (JArr items) = plainValues items"
| "plainValue (JObj entries) = plainEntries entries"
| "plainValues [] = True"
| "plainValues (item # rest) = (plainValue item \<and> plainValues rest)"
| "plainEntries [] = True"
| "plainEntries ((k, v) # rest) = (plainValue v \<and> plainEntries rest)"

fun plainTree :: "node list \<Rightarrow> bool" where
  "plainTree [] = True"
| "plainTree (Node k v ty pa l i e cs # ns) =
     (plainValue v \<and> (case cs of Some ch \<Rightarrow> plainTree ch | None \<Rightarrow> True) \<and> plainTree ns)"

text \<open>
  \<open>applyEdit\<close> is declared to return \<open>JsonNode[]\<close> and no handler throws: what a caller
  observes is always a tree. The failure kinds are those a report could name; the
  program declares none of them.
\<close>

datatype editFailure = NotFound | InvalidPath | DuplicateKey | InvalidTarget

definition applyEditOutcome :: "node list \<Rightarrow> operation \<Rightarrow> editFailure + node list" where
  "applyEditOutcome root operation = Inr (applyEdit root operation)"

text \<open>The input of the end-to-end scenario, \<open>{"a":1,"b":[2,3]}\<close>.\<close>

definition scenario :: json where
  "scenario = JObj [(''a'', JNum (Finite 1)), (''b'', JArr [JNum (Finite 2), JNum (Finite 3)])]"

text \<open>
  The invariant of tree nodes. A path is extended by one segment in its canonical text
  form: a field after a dot (no dot after the empty path), an index in brackets.
\<close>

datatype pathSegment = Field string | Index nat

fun appendSegment :: "string \<Rightarrow> pathSegment \<Rightarrow> string" where
  "appendSegment p (Field k) = (if p = [] then k else p @ ''.'' @ k)"
| "appendSegment p (Index i) = p @ ''['' @ toString i @ '']''"

definition extendsByOneSegment :: "string \<Rightarrow> node \<Rightarrow> bool" where
  "extendsByOneSegment parent c =
     (path c = appendSegment parent (Field (key c)) \<or>
      (case index c of Some i \<Rightarrow> path c = appendSegment parent (Index i) | None \<Rightarrow> False))"

fun nodeInvariant :: "node \<Rightarrow> bool"
  and childrenInvariant :: "string \<Rightarrow> nat \<Rightarrow> node list \<Rightarrow> bool"
where
  "nodeInvariant (Node k v ty p l i e cs) =
     (((cs \<noteq> None) = (ty = TObject \<or> ty = TArray)) \<and>
      (case cs of None \<Rightarrow> True | Some ch \<Rightarrow> childrenInvariant p l ch))"
| "childrenInvariant p l [] = True"
| "childrenInvariant p l (c # rest) =
     (level c = l + 1 \<and> extendsByOneSegment p c \<and> nodeInvariant c \<and>
      childrenInvariant p l rest)"

definition treeInvariant :: "node list \<Rightarrow> bool" where
  "treeInvariant nodes = list_all nodeInvariant nodes"

text \<open>
  Notions for the toggle: every node at path \<open>p\<close> carries an \<open>expanded\<close> flag; the tree
  with the flag of every node at path \<open>p\<close> removed; a node with its flag inverted.
\<close>

fun flaggedAt :: "string \<Rightarrow> node list \<Rightarrow> bool" where
  "flaggedAt p [] = True"
| "flaggedAt p (Node k v ty pa l i e cs # ns) =
     ((pa \<noteq> p \<or> e \<noteq> None) \<and>
      (case cs of Some ch \<Rightarrow> flaggedAt p ch | None \<Rightarrow> True) \<and>
      flaggedAt p ns)"

fun eraseFlagAt :: "string \<Rightarrow> node list \<Rightarrow> node list" where
  "eraseFlagAt p [] = []"
| "eraseFlagAt p (Node k v ty pa l i e cs # ns) =
     Node k v ty pa l i (if pa = p then None else e)
       (case cs of Some ch \<Rightarrow> Some (eraseFlagAt p ch) | None \<Rightarrow> None)
     # eraseFlagAt p ns"

fun invertFlag :: "node \<Rightarrow> node" where
  "invertFlag (Node k v ty pa l i e cs) = Node k v ty pa l i (Some (e \<noteq> Some True)) cs"

text \<open>
  Notions for the round trip through the tree: the tree with every \<open>expanded\<close> flag
  removed (two trees with the same image differ in their flags only), and the values
  made of arrays and non-null scalars.
\<close>

fun eraseFlags :: "node list \<Rightarrow> node list" where
  "eraseFlags [] = []"
| "eraseFlags (Node k v ty pa l i e cs # ns) =
     Node k v ty pa l i None
       (case cs of Some ch \<Rightarrow> Some (eraseFlags ch) | None \<Rightarrow> None)
     # eraseFlags ns"

fun arraysOnly :: "json \<Rightarrow> bool" where
  "arraysOnly (JArr items) = list_all arraysOnly items"
| "arraysOnly (JObj entries) = False"
| "arraysOnly JNull = False"
| "arraysOnly (JBool b) = True"
| "arraysOnly (JNum n) = True"
| "arraysOnly (JStr s) = True"

section \<open>The edit engine on a store\<close>

text \<open>
  \<open>applyEdit\<close> copies the tree and then assigns to the copy: \<open>nodes.push\<close>, \<open>node.value =\<close>
  and \<open>node.type =\<close> write to objects. Whether the caller's tree is touched depends on
  which objects are written, so here nodes and arrays of nodes live in a store. An
  address is a position of the store and a new object is appended to it. JSON data
  (\<open>value\<close>) stays a value: no handler writes into it.
\<close>

type_synonym addr = nat

datatype obj =
    NodeObj string json jstype string nat "nat option" "bool option" "addr option"
  | ArrayObj "addr list"

type_synonym store = "obj list"

text \<open>The addresses that an object holds.\<close>

fun refs :: "obj \<Rightarrow> addr set" where
  "refs (NodeObj k v ty pa l i e c) = set_option c"
| "refs (ArrayObj as) = set as"

text \<open>
  \<open>JSON.stringify(root)\<close> walks the objects from the array at \<open>root\<close>; what it writes is
  the tree as a value. A walk along a chain of distinct objects is no longer than the
  store, so with that much fuel \<open>None\<close> is a walk that reaches a cycle, a missing object
  or an object of the wrong kind, where the engine throws.
\<close>

fun readNodes :: "nat \<Rightarrow> store \<Rightarrow> addr \<Rightarrow> node list option"
  and readNode :: "nat \<Rightarrow> store \<Rightarrow> addr \<Rightarrow> node option"
where
  "readNodes 0 h a = None"
| "readNodes (Suc f) h a =
     (if a < length h
      then (case h ! a of
              ArrayObj as \<Rightarrow> those (map (readNode f h) as)
            | NodeObj k v ty pa l i e c \<Rightarrow> None)
      else None)"
| "readNode 0 h a = None"
| "readNode (Suc f) h a =
     (if a < length h
      then (case h ! a of
              NodeObj k v ty pa l i e c \<Rightarrow>
                (case c of
                   None \<Rightarrow> Some (Node k v ty pa l i e None)
                 | Some ca \<Rightarrow>
                     (case readNodes f h ca of
                        None \<Rightarrow> None
                      | Some ch \<Rightarrow> Some (Node k v ty pa l i e (Some ch))))
            | ArrayObj as \<Rightarrow> None)
      else None)"

definition stringify :: "store \<Rightarrow> addr \<Rightarrow> node list option" where
  "stringify h root = readNodes (length h) h root"

text \<open>
  The text written is that of \<open>cloneTree\<close> of the tree walked, and \<open>JSON.parse\<close> of the
  text builds that tree from new objects.
\<close>

fun allocNodes :: "node list \<Rightarrow> store \<Rightarrow> addr \<times> store"
  and allocEach :: "node list \<Rightarrow> store \<Rightarrow> addr list \<times> store"
  and allocNode :: "node \<Rightarrow> store \<Rightarrow> addr \<times> store"
where
  "allocNodes ns h =
     (case allocEach ns h of (as, h1) \<Rightarrow> (length h1, h1 @ [ArrayObj as]))"
| "allocEach [] h = ([], h)"
| "allocEach (n # ns) h =
     (case allocNode n h of (a, h1) \<Rightarrow>
        (case allocEach ns h1 of (as, h2) \<Rightarrow> (a # as, h2)))"
| "allocNode (Node k v ty pa l i e cs) h =
     (case cs of
        None \<Rightarrow> (length h, h @ [NodeObj k v ty pa l i e None])
      | Some ch \<Rightarrow>
          (case allocNodes ch h of (ca, h1) \<Rightarrow>
             (length h1, h1 @ [NodeObj k v ty pa l i e (Some ca)])))"

text \<open>
  \<open>findNodeByPath\<close> on the store: the address of the node found. The outer \<open>None\<close> is a
  walk out of fuel or onto an object of the wrong kind.
\<close>

fun findNodeByPathH :: "nat \<Rightarrow> store \<Rightarrow> addr \<Rightarrow> string \<Rightarrow> addr option option"
  and findInH :: "nat \<Rightarrow> store \<Rightarrow> addr list \<Rightarrow> string \<Rightarrow> addr option option"
where
  "findNodeByPathH 0 h nodes p = None"
| "findNodeByPathH (Suc f) h nodes p =
     (if nodes < length h
      then (case h ! nodes of
              ArrayObj as \<Rightarrow> findInH f h as p
            | NodeObj k v ty pa l i e c \<Rightarrow> None)
      else None)"
| "findInH f h [] p = Some None"
| "findInH f h (a # as) p =
     (if a < length h
      then (case h ! a of
              NodeObj k v ty pa l i e c \<Rightarrow>
                (if pa = p then Some (Some a)
                 else (case c of
                         Some ca \<Rightarrow>
                           (case findNodeByPathH f h ca p of
                              None \<Rightarrow> None
                            | Some (Some found) \<Rightarrow> Some (Some found)
                            | Some None \<Rightarrow> findInH f h as p)
                       | None \<Rightarrow> findInH f h as p))
            | ArrayObj bs \<Rightarrow> None)
      else None)"

text \<open>The handlers: \<open>None\<close> where the engine would throw.\<close>

definition addNodeH :: "store \<Rightarrow> addr \<Rightarrow> string \<Rightarrow> string \<Rightarrow> json \<Rightarrow> (store \<times> addr) option" where
  "addNodeH h nodes opath okey ovalue =
     (let parentPath = substring0 opath (lastIndexOf CHR ''.'' opath) in
      if parentPath = []
      then (let newNode = length h;
                h1 = h @ [NodeObj okey ovalue (typeof ovalue) okey 0 None None None]
            in if nodes < length h1
               then (case h1 ! nodes of
                       ArrayObj as \<Rightarrow> Some (h1[nodes := ArrayObj (as @ [newNode])], nodes)
                     | NodeObj k v ty pa l i e c \<Rightarrow> None)
               else None)
      else Some (h, nodes))"

definition updateNodeH :: "store \<Rightarrow> addr \<Rightarrow> string \<Rightarrow> json \<Rightarrow> (store \<times> addr) option" where
  "updateNodeH h nodes opath ovalue =
     (case findNodeByPathH (length h) h nodes opath of
        None \<Rightarrow> None
      | Some None \<Rightarrow> Some (h, nodes)
      | Some (Some a) \<Rightarrow>
          (if a < length h
           then (case h ! a of
                   NodeObj k v ty pa l i e c \<Rightarrow>
                     Some (h[a := NodeObj k ovalue (typeof ovalue) pa l i e c], nodes)
                 | ArrayObj as \<Rightarrow> None)
           else None))"

text \<open>\<open>nodes.filter(node => node.key !== key)\<close>: a new array of the nodes kept.\<close>

fun filterH :: "store \<Rightarrow> string option \<Rightarrow> addr list \<Rightarrow> addr list option" where
  "filterH h k [] = Some []"
| "filterH h k (a # as) =
     (if a < length h
      then (case h ! a of
              NodeObj k' v ty pa l i e c \<Rightarrow>
                (case filterH h k as of
                   None \<Rightarrow> None
                 | Some kept \<Rightarrow> Some (if Some k' \<noteq> k then a # kept else kept))
            | ArrayObj bs \<Rightarrow> None)
      else None)"

definition deleteNodeH :: "store \<Rightarrow> addr \<Rightarrow> string \<Rightarrow> (store \<times> addr) option" where
  "deleteNodeH h nodes opath =
     (let parentPath = substring0 opath (lastIndexOf CHR ''.'' opath);
          k = pop (split CHR ''.'' opath) in
      if parentPath = []
      then (if nodes < length h
            then (case h ! nodes of
                    ArrayObj as \<Rightarrow>
                      (case filterH h k as of
                         None \<Rightarrow> None
                       | Some kept \<Rightarrow> Some (h @ [ArrayObj kept], length h))
                  | NodeObj k' v ty pa l i e c \<Rightarrow> None)
            else None)
      else Some (h, nodes))"

definition moveNodeH :: "store \<Rightarrow> addr \<Rightarrow> string \<Rightarrow> string \<Rightarrow> (store \<times> addr) option" where
  "moveNodeH h nodes opath newPath = Some (h, nodes)"

text \<open>
  \<open>applyEdit\<close> on the store: \<open>newRoot\<close> is the address of the copy, and the result is the
  store after the call with the address returned.
\<close>

definition applyEditH :: "store \<Rightarrow> addr \<Rightarrow> operation \<Rightarrow> (store \<times> addr) option" where
  "applyEditH h root operation =
     (case stringify h root of
        None \<Rightarrow> None
      | Some t \<Rightarrow>
          (case allocNodes (cloneTree t) h of (newRoot, h1) \<Rightarrow>
             (case operation of
                Add opath okey ovalue \<Rightarrow> addNodeH h1 newRoot opath okey ovalue
              | Update opath ovalue \<Rightarrow> updateNodeH h1 newRoot opath ovalue
              | Delete opath \<Rightarrow> deleteNodeH h1 newRoot opath
              | Move opath newPath \<Rightarrow> moveNodeH h1 newRoot opath newPath)))"

text \<open>The objects that can be reached from an address.\<close>

inductive reach :: "store \<Rightarrow> addr \<Rightarrow> addr \<Rightarrow> bool" for h :: store and r :: addr where
  reach_root: "reach h r r"
| reach_step: "reach h r a \<Longrightarrow> a < length h \<Longrightarrow> b \<in> refs (h ! a) \<Longrightarrow> reach h r b"

text \<open>
  Two notions about regions of the store: the objects from address \<open>n\<close> on hold
  addresses from \<open>n\<close> on only, and two stores hold the same objects at the addresses from
  \<open>lo\<close> up to \<open>hi\<close>.
\<close>

definition closedFrom :: "nat \<Rightarrow> store \<Rightarrow> bool" where
  "closedFrom n h = (\<forall>a. n \<le> a \<and> a < length h \<longrightarrow> (\<forall>b \<in> refs (h ! a). n \<le> b \<and> b < length h))"

definition agreeOn :: "nat \<Rightarrow> nat \<Rightarrow> store \<Rightarrow> store \<Rightarrow> bool" where
  "agreeOn lo hi H h =
     (hi \<le> length H \<and> hi \<le> length h \<and> (\<forall>a. lo \<le> a \<and> a < hi \<longrightarrow> H ! a = h ! a))"

text \<open>
  \<open>h'\<close> is \<open>h\<close> with new objects after it, \<open>r\<close> is one of the new objects, and the new
  objects hold addresses of new objects only.
\<close>

definition freshCopy :: "store \<Rightarrow> store \<Rightarrow> addr \<Rightarrow> bool" where
  "freshCopy h h' r =
     ((\<exists>ext. h' = h @ ext) \<and> length h \<le> r \<and> r < length h' \<and> closedFrom (length h) h')"

text \<open>
  How a search on the store and the assignment that follows it relate to \<open>assignFound\<close>
  on the tree that the store holds between the addresses \<open>lo\<close> and \<open>hi\<close>: the search
  returns; when it finds nothing \<open>assignFound\<close> finds nothing; when it finds the node at
  address \<open>a\<close>, the store with that node's value and type assigned reads (by \<open>rd\<close>) as the
  tree that \<open>assignFound\<close> returns.
\<close>

definition tracks :: "nat \<Rightarrow> nat \<Rightarrow> store \<Rightarrow> json \<Rightarrow> addr option option \<Rightarrow> node list option
    \<Rightarrow> (store \<Rightarrow> nat \<Rightarrow> node list option) \<Rightarrow> bool" where
  "tracks lo hi H x found assigned rd =
     (case found of
        None \<Rightarrow> False
      | Some None \<Rightarrow> assigned = None
      | Some (Some a) \<Rightarrow>
          lo \<le> a \<and> a < hi \<and>
          (case H ! a of
             NodeObj k v ty pa l i e c \<Rightarrow>
               (\<exists>ns'. assigned = Some ns' \<and>
                  (\<forall>f. hi - lo \<le> f \<longrightarrow>
                     rd (H[a := NodeObj k x (typeof x) pa l i e c]) f = Some ns'))
           | ArrayObj as \<Rightarrow> False))"

section \<open>Array indices as decimal strings\<close>

lemma lt10:
  "d < 10 \<Longrightarrow>
   d = 0 \<or> d = 1 \<or> d = 2 \<or> d = 3 \<or> d = 4 \<or> d = 5 \<or> d = 6 \<or> d = 7 \<or> d = 8 \<or> d = (9::nat)"
  by arith

lemma digit_char_props:
  assumes "d < 10"
  shows "is_digit (digit_char d)" and "digit_val (digit_char d) = d"
    and "(digit_char d = CHR ''0'') = (d = 0)"
  using lt10 [OF assms] by (auto simp: digit_char_def is_digit_def digit_val_def)

lemma parseInt_snoc: "parseInt (s @ [c]) = 10 * parseInt s + digit_val c"
  by (simp add: parseInt_def)

lemma parseInt_toString: "parseInt (toString n) = n"
proof (induction n rule: toString.induct)
  case (1 n)
  show ?case
  proof (cases "n < 10")
    case True
    then show ?thesis
      by (subst toString.simps) (simp add: parseInt_def digit_char_props)
  next
    case False
    with 1 show ?thesis
      by (subst toString.simps) (simp add: parseInt_snoc digit_char_props)
  qed
qed

lemma toString_digits: "list_all is_digit (toString n)"
proof (induction n rule: toString.induct)
  case (1 n)
  then show ?case
    by (subst toString.simps) (simp add: digit_char_props)
qed

lemma toString_not_Nil: "toString n \<noteq> []"
  by (subst toString.simps) simp

lemma toString_hd: "toString n = ''0'' \<or> hd (toString n) \<noteq> CHR ''0''"
proof (induction n rule: toString.induct)
  case (1 n)
  show ?case
  proof (cases "n < 10")
    case True
    then show ?thesis
      by (subst (1 2) toString.simps) (auto simp: digit_char_props)
  next
    case False
    with 1 have "toString (n div 10) = ''0'' \<or> hd (toString (n div 10)) \<noteq> CHR ''0''"
      by simp
    moreover have "toString (n div 10) \<noteq> ''0''"
    proof
      assume "toString (n div 10) = ''0''"
      then have "parseInt (toString (n div 10)) = parseInt ''0''" by simp
      moreover have "parseInt ''0'' = 0" by (simp add: parseInt_def digit_val_def)
      ultimately have "n div 10 = 0" by (simp only: parseInt_toString)
      with False show False by simp
    qed
    ultimately have "hd (toString (n div 10)) \<noteq> CHR ''0''" by simp
    with False show ?thesis
      by (subst (2) toString.simps) (simp add: toString_not_Nil)
  qed
qed

lemma is_array_index_toString: "is_array_index (toString n)"
  using toString_hd [of n] by (auto simp: is_array_index_def toString_not_Nil toString_digits)

lemma assign_index:
  "assign (toString (length es)) x (es, ps) = (es @ [Some x], ps)"
  by (simp add: assign_def is_array_index_toString parseInt_toString set_elem_def)

section \<open>Error positions of parse\<close>

lemma split_not_Nil: "split c s \<noteq> []"
  by (induction s) (auto split: list.splits)

lemma length_split: "length (split c s) = Suc (count_list s c)"
  by (induction s) (auto split: list.splits)






lemma pop_split: "pop (split c s) = Some (last (split c s))"
  by (simp add: pop_def split_not_Nil)













text \<open>
  C10, as stated: exactly one of \<open>data\<close> and \<open>error\<close> is non-null. On the text \<open>null\<close> the
  engine returns \<open>null\<close>, and both fields of the result are null.
\<close>

theorem parse_null_both_null:
  "parse (Returned JNull) ''null'' = Inr \<lparr>data = JNull, error = None\<rparr>"
  by (simp add: parse_def)

text \<open>
  C10, amended. \<open>parse\<close> never throws. When the engine returns, \<open>error\<close> is null and
  \<open>data\<close> is the value returned (null for the text \<open>null\<close>); when it throws, \<open>data\<close> is
  null and \<open>error\<close> carries the message with \<open>line\<close> and \<open>column\<close> at least 1, both equal
  to 1 when the message has no \<open>position N\<close>.
\<close>

theorem parse_never_throws:
  "\<exists>r. parse outcome s = Inr r \<and>
     (case outcome of
        Returned d \<Rightarrow> data r = d \<and> error r = None
      | Threw msg \<Rightarrow>
          data r = JNull \<and>
          (\<exists>e. error r = Some e \<and> message e = msg \<and> 1 \<le> line e \<and> 1 \<le> column e \<and>
               (matchPosition msg = None \<longrightarrow> line e = 1 \<and> column e = 1)))"
  by (cases outcome) (auto simp: parse_def Let_def pop_split length_split substring0_def)

theorem parse_never_throws_witness:
  "matchPosition ''JSON Parse error: Unexpected token'' = None
   \<and> parse (Threw ''JSON Parse error: Unexpected token'') (''{'' @ [newline] @ ''\"a\": }'')
       = Inr \<lparr>data = JNull,
              error = Some \<lparr>message = ''JSON Parse error: Unexpected token'',
                            line = 1, column = 1\<rparr>\<rparr>"
proof -
  have h: "matchPosition ''JSON Parse error: Unexpected token'' = None"
    by code_simp
  from parse_never_throws [of "Threw ''JSON Parse error: Unexpected token''"
      "''{'' @ [newline] @ ''\"a\": }''"] h
  show ?thesis
    by auto
qed

section \<open>The edit engine on the end-to-end scenario\<close>

text \<open>
  C2, as stated: after \<open>Delete{path:"b[0]"}\<close> node \<open>b\<close> has a single child. The path has
  no dot, so the handler filters the top-level nodes by the key \<open>b[0]\<close>, which none of
  them has: \<open>b\<close> keeps its two children.
\<close>

theorem delete_nested_keeps_children:
  "map_option children
     (findNodeByPath (applyEdit (toJsonTree scenario [] 0) (Delete ''b[0]'')) ''b'')
   = Some (Some [Node ''0'' (JNum (Finite 2)) TNumber ''b[0]'' 1 (Some 0) (Some True) None,
                 Node ''1'' (JNum (Finite 3)) TNumber ''b[1]'' 1 (Some 1) (Some True) None])"
  by code_simp

text \<open>
  C2, amended: on the tree of the scenario, \<open>Delete{path:"b[0]"}\<close> returns a tree equal to
  the input tree.
\<close>

theorem delete_nested_unchanged:
  "applyEdit (toJsonTree scenario [] 0) (Delete ''b[0]'') = toJsonTree scenario [] 0"
  by code_simp

section \<open>Update with a path that does not resolve\<close>

lemma assignFound_None: "findNodeByPath t p = None \<Longrightarrow> assignFound t p x = None"
  by (induction t p rule: findNodeByPath.induct) (auto split: option.splits if_splits)

lemma assignFound_Some: "findNodeByPath t p \<noteq> None \<Longrightarrow> assignFound t p x \<noteq> None"
  by (induction t p rule: findNodeByPath.induct) (auto split: option.splits if_splits)

lemma findNodeByPath_clone:
  "findNodeByPath (cloneNodes t) p = map_option (\<lambda>n. hd (cloneNodes [n])) (findNodeByPath t p)"
  by (induction t p rule: findNodeByPath.induct) (auto split: option.splits)

lemma findNodeByPath_clone_None:
  "findNodeByPath t p = None \<Longrightarrow> findNodeByPath (cloneTree t) p = None"
  by (simp add: cloneTree_def findNodeByPath_clone)

lemma cloneValue_plain:
  "plainValue v \<Longrightarrow> cloneValue v = v"
  "plainValues vs \<Longrightarrow> cloneValues vs = vs"
  "plainEntries es \<Longrightarrow> cloneEntries es = es"
proof (induction v and vs and es rule: cloneValue_cloneValues_cloneEntries.induct)
  case (3 n)
  then show ?case by (cases n) simp_all
qed simp_all

lemma cloneNodes_plain: "plainTree t \<Longrightarrow> cloneNodes t = t"
  by (induction t rule: cloneNodes.induct) (auto simp: cloneValue_plain split: option.splits)

text \<open>
  C3, as stated: the update reports \<open>NotFound\<close> and returns a tree equal to the input
  tree. The call returns a tree, as every call of \<open>applyEdit\<close> does, and that tree is the
  copy made through JSON text: on the tree of \<open>[Infinity]\<close> (the text \<open>[1e400]\<close>) the
  value of the node comes back as \<open>null\<close>.
\<close>

theorem update_missing_no_report:
  "findNodeByPath (toJsonTree scenario [] 0) ''c'' = None
   \<and> applyEditOutcome (toJsonTree scenario [] 0) (Update ''c'' (JNum (Finite 7))) \<noteq> Inl NotFound
   \<and> findNodeByPath (toJsonTree (JArr [JNum PosInfinity]) [] 0) ''c'' = None
   \<and> applyEdit (toJsonTree (JArr [JNum PosInfinity]) [] 0) (Update ''c'' (JNum (Finite 7)))
       = [Node ''0'' JNull TNumber ''[0]'' 0 (Some 0) (Some True) None]
   \<and> applyEdit (toJsonTree (JArr [JNum PosInfinity]) [] 0) (Update ''c'' (JNum (Finite 7)))
       \<noteq> toJsonTree (JArr [JNum PosInfinity]) [] 0"
  by (simp add: applyEditOutcome_def) code_simp

text \<open>
  C3, amended: for every tree and every path that resolves to no node of it, the update
  returns normally, with the copy of the tree made through JSON text; the copy is equal
  to the input tree when no value of the tree holds \<open>-0\<close> or an infinite number.
\<close>

theorem update_missing_unchanged:
  "findNodeByPath t p = None \<Longrightarrow>
   applyEditOutcome t (Update p v) = Inr (cloneTree t)
   \<and> (plainTree t \<longrightarrow> applyEditOutcome t (Update p v) = Inr t)"
  by (simp add: applyEditOutcome_def updateNode_def findNodeByPath_clone_None)
    (simp add: cloneTree_def cloneNodes_plain)

theorem update_missing_unchanged_witness:
  "findNodeByPath (toJsonTree scenario [] 0) ''c'' = None
   \<and> plainTree (toJsonTree scenario [] 0)
   \<and> applyEditOutcome (toJsonTree scenario [] 0) (Update ''c'' (JNum (Finite 7)))
       = Inr (toJsonTree scenario [] 0)"
proof -
  have h: "findNodeByPath (toJsonTree scenario [] 0) ''c'' = None"
    by code_simp
  have q: "plainTree (toJsonTree scenario [] 0)"
    by code_simp
  from update_missing_unchanged [OF h, of "JNum (Finite 7)"] h q show ?thesis
    by blast
qed

section \<open>Paths of the tree and validatePath\<close>

text \<open>
  C8: \<open>validatePath\<close> returns \<open>true\<close> on the path of every node of \<open>toJsonTree(v)\<close>. In
  the tree of the scenario the node at \<open>b[0]\<close> exists and \<open>validatePath\<close> rejects its path:
  the pattern wants a dot before every segment but the first.
\<close>

theorem validatePath_rejects_index_path:
  "map_option (validatePath \<circ> path) (findNodeByPath (toJsonTree scenario [] 0) ''b[0]'')
   = Some False"
  by code_simp

section \<open>The invariant of tree nodes\<close>

lemma childrenInvariant_iff:
  "childrenInvariant p l ch
   = (\<forall>c \<in> set ch. level c = l + 1 \<and> extendsByOneSegment p c \<and> nodeInvariant c)"
  by (induction ch) auto

lemma toJsonTree_nodes:
  "\<forall>c \<in> set (toJsonTree v pp lvl).
     level c = lvl \<and> extendsByOneSegment pp c \<and> nodeInvariant c"
  "\<forall>c \<in> set (arrayNodes i items pp lvl).
     level c = lvl \<and> extendsByOneSegment pp c \<and> nodeInvariant c"
  "\<forall>c \<in> set (objectNodes entries pp lvl).
     level c = lvl \<and> extendsByOneSegment pp c \<and> nodeInvariant c"
proof (induction v pp lvl and i items pp lvl and entries pp lvl
    rule: toJsonTree_arrayNodes_objectNodes.induct)
  case (8 i item rest parentPath lvl)
  then show ?case
    by (auto simp: childrenInvariant_iff extendsByOneSegment_def indexPath_def)
next
  case (10 k v rest parentPath lvl)
  then show ?case
    by (auto simp: childrenInvariant_iff extendsByOneSegment_def fieldPath_def)
qed simp_all

lemma toJsonTree_invariant: "treeInvariant (toJsonTree v pp lvl)"
  using toJsonTree_nodes(1) [of v pp lvl] by (simp add: treeInvariant_def list_all_iff)

lemma cloneNodes_invariant:
  "nodeInvariant n \<Longrightarrow> list_all nodeInvariant (cloneNodes [n])"
  "childrenInvariant p l ch \<Longrightarrow> childrenInvariant p l (cloneNodes ch)"
proof (induction n and p l ch rule: nodeInvariant_childrenInvariant.induct)
  case (1 k v ty p l i e cs)
  then show ?case by (cases cs) auto
next
  case (2 p l)
  then show ?case by simp
next
  case (3 p l c rest)
  then show ?case by (cases c) (auto simp: extendsByOneSegment_def split: option.splits)
qed

lemma cloneNodes_Cons: "cloneNodes (n # ns) = cloneNodes [n] @ cloneNodes ns"
  by (cases n) simp

lemma cloneTree_invariant: "treeInvariant t \<Longrightarrow> treeInvariant (cloneTree t)"
  unfolding treeInvariant_def cloneTree_def
proof (induction t)
  case Nil
  then show ?case by simp
next
  case (Cons n ns)
  then show ?case
    using cloneNodes_invariant(1) [of n] by (subst cloneNodes_Cons) simp
qed

lemma delete_invariant: "treeInvariant t \<Longrightarrow> treeInvariant (applyEdit t (Delete p))"
  using cloneTree_invariant [of t]
  by (auto simp: treeInvariant_def deleteNode_def Let_def list_all_iff)

lemma move_invariant: "treeInvariant t \<Longrightarrow> treeInvariant (applyEdit t (Move p q))"
  using cloneTree_invariant [of t] by (simp add: moveNode_def)

text \<open>
  C9: every tree of \<open>toJsonTree\<close> and every tree that \<open>applyEdit\<close> returns on one satisfies
  the invariant. The tree of \<open>{"a":1}\<close> does; after \<open>Update{path:"a", value:{"x":1}}\<close> node
  \<open>a\<close> has type \<open>object\<close> and no children, after \<open>Update{path:"b", value:5}\<close> on the tree of
  the scenario node \<open>b\<close> has type \<open>number\<close> and keeps its children, and after
  \<open>Add{path:"c", key:"c", value:[]}\<close> the new node has type \<open>object\<close> and no children.
\<close>

theorem edits_break_invariant:
  "treeInvariant (toJsonTree (JObj [(''a'', JNum (Finite 1))]) [] 0)
   \<and> \<not> treeInvariant (applyEdit (toJsonTree (JObj [(''a'', JNum (Finite 1))]) [] 0)
                       (Update ''a'' (JObj [(''x'', JNum (Finite 1))])))
   \<and> \<not> treeInvariant (applyEdit (toJsonTree scenario [] 0) (Update ''b'' (JNum (Finite 5))))
   \<and> \<not> treeInvariant (applyEdit (toJsonTree scenario [] 0) (Add ''c'' ''c'' (JArr [])))"
  by code_simp

section \<open>Toggling a node\<close>

lemma updateExpanded_twice:
  "flaggedAt p t \<Longrightarrow> updateExpanded p (updateExpanded p t) = t"
  by (induction p t rule: updateExpanded.induct) (auto split: option.splits)

lemma updateExpanded_erase:
  "eraseFlagAt p (updateExpanded p t) = eraseFlagAt p t"
  by (induction p t rule: updateExpanded.induct) (auto split: option.splits)

lemma updateExpanded_find:
  "findNodeByPath (updateExpanded p t) p = map_option invertFlag (findNodeByPath t p)"
  by (induction p t rule: updateExpanded.induct) (auto split: option.splits)

text \<open>
  C7, as stated: toggling twice returns a tree equal to the first, for every tree. A
  node that \<open>Add\<close> appended carries no \<open>expanded\<close> flag; \<open>!undefined\<close> is \<open>true\<close>, so two
  toggles leave the flag \<open>false\<close> where there was none.
\<close>

theorem toggle_twice_unflagged:
  "toggleNode ''x'' (toggleNode ''x'' (applyEdit [] (Add ''x'' ''x'' (JObj []))))
   \<noteq> applyEdit [] (Add ''x'' ''x'' (JObj []))"
  by code_simp

text \<open>
  C7, amended: when every node at path \<open>p\<close> carries an \<open>expanded\<close> flag (as every node of
  \<open>toJsonTree\<close> does), toggling \<open>p\<close> twice returns a tree equal to the first. A single
  toggle changes nothing but \<open>expanded\<close> flags of nodes at path \<open>p\<close>, and the node that
  \<open>findNodeByPath\<close> returns for \<open>p\<close> afterwards is the one it returned before with the flag
  inverted, its children included as they were.
\<close>

theorem toggle_twice:
  "(flaggedAt p t \<longrightarrow> toggleNode p (toggleNode p t) = t)
   \<and> eraseFlagAt p (toggleNode p t) = eraseFlagAt p t
   \<and> findNodeByPath (toggleNode p t) p = map_option invertFlag (findNodeByPath t p)"
  by (simp add: toggleNode_def updateExpanded_twice updateExpanded_erase updateExpanded_find)

theorem toggle_twice_witness:
  "flaggedAt ''b'' (toJsonTree scenario [] 0)
   \<and> toggleNode ''b'' (toggleNode ''b'' (toJsonTree scenario [] 0)) = toJsonTree scenario [] 0
   \<and> toggleNode ''b'' (toJsonTree scenario [] 0) \<noteq> toJsonTree scenario [] 0
   \<and> map_option expanded (findNodeByPath (toggleNode ''b'' (toJsonTree scenario [] 0)) ''b'')
       = Some (Some False)"
proof -
  have h: "flaggedAt ''b'' (toJsonTree scenario [] 0)"
    by code_simp
  have f: "findNodeByPath (toJsonTree scenario [] 0) ''b''
      = Some (Node ''b'' (JArr [JNum (Finite 2), JNum (Finite 3)]) TArray ''b'' 0 None (Some True)
          (Some [Node ''0'' (JNum (Finite 2)) TNumber ''b[0]'' 1 (Some 0) (Some True) None,
                 Node ''1'' (JNum (Finite 3)) TNumber ''b[1]'' 1 (Some 1) (Some True) None]))"
    by code_simp
  have d: "toggleNode ''b'' (toJsonTree scenario [] 0) \<noteq> toJsonTree scenario [] 0"
    by code_simp
  from toggle_twice [of "''b''" "toJsonTree scenario [] 0"] h f d show ?thesis
    by simp
qed

section \<open>The round trip through the tree\<close>

text \<open>
  C1, as stated: \<open>fromJsonTree(toJsonTree(v))\<close> is deep-equal to \<open>v\<close> for every value,
  whatever the \<open>expanded\<close> flags. A scalar has no nodes and comes back as \<open>[]\<close>; an
  object comes back as an array object with named properties; an object inside an array
  comes back so while its node is expanded, and as itself once the node is collapsed.
\<close>

theorem tree_round_trip_fails:
  "fromJsonTree (toJsonTree (JNum (Finite 5)) [] 0) = Built [] []
   \<and> reify (fromJsonTree (toJsonTree (JNum (Finite 5)) [] 0)) \<noteq> Some (JNum (Finite 5))
   \<and> fromJsonTree (toJsonTree (JObj [(''a'', JNum (Finite 1))]) [] 0) = Built [] [(''a'', Plain (JNum (Finite 1)))]
   \<and> reify (fromJsonTree (toJsonTree (JObj [(''a'', JNum (Finite 1))]) [] 0))
       \<noteq> Some (JObj [(''a'', JNum (Finite 1))])
   \<and> reify (fromJsonTree (toJsonTree (JArr [JObj [(''a'', JNum (Finite 1))]]) [] 0))
       \<noteq> Some (JArr [JObj [(''a'', JNum (Finite 1))]])
   \<and> reify (fromJsonTree (toggleNode ''[0]'' (toJsonTree (JArr [JObj [(''a'', JNum (Finite 1))]]) [] 0)))
       = Some (JArr [JObj [(''a'', JNum (Finite 1))]])"
  by code_simp

lemma reify_elems_snoc:
  "reify_elems (es @ [Some r]) =
     (case reify_elems es of
        None \<Rightarrow> None
      | Some vs \<Rightarrow> (case reify r of None \<Rightarrow> None | Some v \<Rightarrow> Some (vs @ [v])))"
proof (induction es)
  case Nil
  then show ?case by (simp split: option.splits)
next
  case (Cons a es)
  then show ?case by (cases a) (auto split: option.splits)
qed

lemma eraseFlags_Cons:
  assumes "eraseFlags t = Node k v ty pa l i None cso # rest"
  obtains e cs t' where "t = Node k v ty pa l i e cs # t'" and "eraseFlags t' = rest"
    and "cso = map_option eraseFlags cs"
proof (cases t)
  case Nil
  with assms show ?thesis by simp
next
  case (Cons n t')
  with assms that show ?thesis
    by (cases n) (auto split: option.splits)
qed

lemma eraseFlags_Nil: "eraseFlags t = [] \<Longrightarrow> t = []"
  by (cases t rule: eraseFlags.cases) auto

text \<open>The round trip of the elements of an array, from index \<open>length es\<close> on.\<close>

lemma arrayNodes_round_trip:
  assumes ih: "\<And>x pp lvl t. x \<in> set items \<Longrightarrow> isArray x \<Longrightarrow> arraysOnly x \<Longrightarrow>
      eraseFlags t = eraseFlags (toJsonTree x pp lvl) \<Longrightarrow> reify (fromJsonTree t) = Some x"
    and ok: "list_all arraysOnly items"
  shows "eraseFlags t = eraseFlags (arrayNodes (length es) items pp lvl) \<Longrightarrow>
    reify_elems es = Some vs \<Longrightarrow>
    \<exists>es'. fromNodes t (es, []) = (es', []) \<and> reify_elems es' = Some (vs @ items)"
  using ih ok
proof (induction items arbitrary: t es vs)
  case Nil
  then have "t = []" by (simp add: eraseFlags_Nil)
  with Nil show ?case by simp
next
  case (Cons x xs)
  let ?p = "indexPath pp (length es)"
  from Cons.prems(1) obtain e cs t' where
    t: "t = Node (toString (length es)) x (nodeType x) ?p lvl (Some (length es)) e cs # t'"
    and t': "eraseFlags t' = eraseFlags (arrayNodes (length es + 1) xs pp lvl)"
    and cs: "(if nodeType x = TObject \<or> nodeType x = TArray
              then Some (eraseFlags (toJsonTree x ?p (lvl + 1))) else None)
             = map_option eraseFlags cs"
    by (auto elim!: eraseFlags_Cons split: if_splits)
  define r where "r = (case cs of
             Some ch \<Rightarrow>
               (if e = Some True
                then (case fromNodes ch ([], []) of (es, ps) \<Rightarrow> Built es ps)
                else Plain x)
           | None \<Rightarrow> Plain x)"
  have ax: "arraysOnly x" using Cons.prems(4) by simp
  have rr: "reify r = Some x"
  proof (cases cs)
    case None
    then show ?thesis by (simp add: r_def)
  next
    case (Some ch)
    with cs have ty: "nodeType x = TObject \<or> nodeType x = TArray"
      and ch: "eraseFlags ch = eraseFlags (toJsonTree x ?p (lvl + 1))"
      by (auto split: if_splits)
    from ty ax have "isArray x" by (cases x) (auto simp: nodeType_def)
    with Cons.prems(3) [of x ch ?p "lvl + 1"] ax ch
    have "reify (fromJsonTree ch) = Some x" by simp
    then show ?thesis
      by (simp add: r_def Some fromJsonTree_def)
  qed
  have step: "fromNodes t (es, []) = fromNodes t' (es @ [Some r], [])"
    by (simp add: t r_def assign_index)
  have len: "length (es @ [Some r]) = length es + 1" by simp
  have "\<exists>es'. fromNodes t' (es @ [Some r], []) = (es', []) \<and>
      reify_elems es' = Some ((vs @ [x]) @ xs)"
  proof (rule Cons.IH)
    show "eraseFlags t' = eraseFlags (arrayNodes (length (es @ [Some r])) xs pp lvl)"
      using t' by simp
    show "reify_elems (es @ [Some r]) = Some (vs @ [x])"
      using Cons.prems(2) rr by (simp add: reify_elems_snoc)
    show "\<And>x pp lvl t. x \<in> set xs \<Longrightarrow> isArray x \<Longrightarrow> arraysOnly x \<Longrightarrow>
      eraseFlags t = eraseFlags (toJsonTree x pp lvl) \<Longrightarrow> reify (fromJsonTree t) = Some x"
      using Cons.prems(3) by simp
    show "list_all arraysOnly xs" using Cons.prems(4) by simp
  qed
  with step show ?case by simp
qed

text \<open>
  C1, amended: for every array \<open>v\<close> made of arrays and non-null scalars only, and every
  tree that differs from \<open>toJsonTree(v)\<close> in \<open>expanded\<close> flags only, \<open>fromJsonTree\<close> of the
  tree is deep-equal to \<open>v\<close>.
\<close>

theorem tree_round_trip_arrays:
  "isArray v \<Longrightarrow> arraysOnly v \<Longrightarrow> eraseFlags t = eraseFlags (toJsonTree v pp lvl) \<Longrightarrow>
   reify (fromJsonTree t) = Some v"
proof (induction v arbitrary: t pp lvl)
  case (JArr items)
  have "\<exists>es'. fromNodes t ([], []) = (es', []) \<and> reify_elems es' = Some ([] @ items)"
  proof (rule arrayNodes_round_trip)
    show "\<And>x pp lvl t. x \<in> set items \<Longrightarrow> isArray x \<Longrightarrow> arraysOnly x \<Longrightarrow>
      eraseFlags t = eraseFlags (toJsonTree x pp lvl) \<Longrightarrow> reify (fromJsonTree t) = Some x"
      using JArr.IH by blast
    show "list_all arraysOnly items" using JArr.prems(2) by simp
    show "eraseFlags t = eraseFlags (arrayNodes (length []) items pp lvl)"
      using JArr.prems(3) by simp
    show "reify_elems [] = Some []" by simp
  qed
  then show ?case by (auto simp: fromJsonTree_def)
qed simp_all

theorem tree_round_trip_arrays_witness:
  "isArray (JArr [JNum (Finite 1), JArr [JBool True, JArr [JStr ''x'']]])
   \<and> arraysOnly (JArr [JNum (Finite 1), JArr [JBool True, JArr [JStr ''x'']]])
   \<and> eraseFlags (toggleNode ''[1]''
         (toJsonTree (JArr [JNum (Finite 1), JArr [JBool True, JArr [JStr ''x'']]]) [] 0))
       = eraseFlags (toJsonTree (JArr [JNum (Finite 1), JArr [JBool True, JArr [JStr ''x'']]]) [] 0)
   \<and> toggleNode ''[1]'' (toJsonTree (JArr [JNum (Finite 1), JArr [JBool True, JArr [JStr ''x'']]]) [] 0)
       \<noteq> toJsonTree (JArr [JNum (Finite 1), JArr [JBool True, JArr [JStr ''x'']]]) [] 0
   \<and> reify (fromJsonTree (toggleNode ''[1]''
         (toJsonTree (JArr [JNum (Finite 1), JArr [JBool True, JArr [JStr ''x'']]]) [] 0)))
       = Some (JArr [JNum (Finite 1), JArr [JBool True, JArr [JStr ''x'']]])"
proof -
  let ?v = "JArr [JNum (Finite 1), JArr [JBool True, JArr [JStr ''x'']]]"
  have h1: "isArray ?v" by simp
  have h2: "arraysOnly ?v" by simp
  have h3: "eraseFlags (toggleNode ''[1]'' (toJsonTree ?v [] 0))
      = eraseFlags (toJsonTree ?v [] 0)"
    by code_simp
  have d: "toggleNode ''[1]'' (toJsonTree ?v [] 0) \<noteq> toJsonTree ?v [] 0"
    by code_simp
  from tree_round_trip_arrays [OF h1 h2 h3] h1 h2 h3 d show ?thesis
    by blast
qed

section \<open>applyEdit and the caller's tree\<close>

lemma alloc_shape:
  "allocNodes ns h = (a, h') \<Longrightarrow> (\<exists>ext. h' = h @ ext) \<and> length h \<le> a \<and> a < length h'"
  "allocEach ns h = (as, h') \<Longrightarrow>
     (\<exists>ext. h' = h @ ext) \<and> (\<forall>a \<in> set as. length h \<le> a \<and> a < length h')"
  "allocNode n h = (a, h') \<Longrightarrow> (\<exists>ext. h' = h @ ext) \<and> length h \<le> a \<and> a < length h'"
proof (induction ns h and ns h and n h arbitrary: a h' and as h' and a h'
    rule: allocNodes_allocEach_allocNode.induct)
  case (1 ns h)
  obtain bs h1 where e: "allocEach ns h = (bs, h1)" by (cases "allocEach ns h")
  from "1.IH" [OF e] obtain ext where "h1 = h @ ext" by blast
  with "1.prems" e show ?case by auto
next
  case (2 h)
  then show ?case by simp
next
  case (3 n ns h)
  obtain b h1 where n: "allocNode n h = (b, h1)" by (cases "allocNode n h")
  obtain bs h2 where e: "allocEach ns h1 = (bs, h2)" by (cases "allocEach ns h1")
  from "3.IH"(1) [OF n] obtain ext1 where 1: "h1 = h @ ext1" "length h \<le> b" "b < length h1"
    by blast
  from "3.IH"(2) [OF n [symmetric] e] obtain ext2 where
    2: "h2 = h1 @ ext2" "\<forall>a \<in> set bs. length h1 \<le> a \<and> a < length h2"
    by blast
  from "3.prems" n e have r: "as = b # bs" "h' = h2" by auto
  from 1 2 have "\<forall>a \<in> set (b # bs). length h \<le> a \<and> a < length h2" by auto
  with r 1 2 show ?case by auto
next
  case (4 k v ty pa l i e cs h)
  show ?case
  proof (cases cs)
    case None
    with "4.prems" show ?thesis by auto
  next
    case (Some ch)
    obtain ca h1 where c: "allocNodes ch h = (ca, h1)" by (cases "allocNodes ch h")
    from "4.IH" [OF Some c] obtain ext where "h1 = h @ ext" by blast
    with "4.prems" Some c show ?thesis by auto
  qed
qed

lemma closedFromD:
  "closedFrom n h \<Longrightarrow> n \<le> a \<Longrightarrow> a < length h \<Longrightarrow> b \<in> refs (h ! a) \<Longrightarrow> n \<le> b \<and> b < length h"
  unfolding closedFrom_def by blast

lemma closedFrom_snoc:
  assumes "closedFrom n h" and "n \<le> length h" and "\<forall>b \<in> refs ob. n \<le> b \<and> b \<le> length h"
  shows "closedFrom n (h @ [ob])"
  unfolding closedFrom_def
proof (intro allI impI ballI)
  fix a b
  assume a: "n \<le> a \<and> a < length (h @ [ob])" and b: "b \<in> refs ((h @ [ob]) ! a)"
  show "n \<le> b \<and> b < length (h @ [ob])"
  proof (cases "a < length h")
    case True
    with b have "b \<in> refs (h ! a)" by (simp add: nth_append)
    with assms(1) a True have "n \<le> b \<and> b < length h"
      using closedFromD by blast
    then show ?thesis by simp
  next
    case False
    with a have "a = length h" by simp
    with b have "b \<in> refs ob" by simp
    with assms(3) show ?thesis by auto
  qed
qed

lemma alloc_closed:
  "allocNodes ns h = (a, h') \<Longrightarrow> closedFrom n h \<Longrightarrow> n \<le> length h \<Longrightarrow> closedFrom n h'"
  "allocEach ns h = (as, h') \<Longrightarrow> closedFrom n h \<Longrightarrow> n \<le> length h \<Longrightarrow> closedFrom n h'"
  "allocNode nd h = (a, h') \<Longrightarrow> closedFrom n h \<Longrightarrow> n \<le> length h \<Longrightarrow> closedFrom n h'"
proof (induction ns h and ns h and nd h arbitrary: a h' and as h' and a h'
    rule: allocNodes_allocEach_allocNode.induct)
  case (1 ns h)
  obtain bs h1 where e: "allocEach ns h = (bs, h1)" by (cases "allocEach ns h")
  from "1.IH" [OF e "1.prems"(2,3)] have c: "closedFrom n h1" .
  from alloc_shape(2) [OF e] have s: "length h \<le> length h1"
    "\<forall>a \<in> set bs. length h \<le> a \<and> a < length h1" by auto
  from "1.prems"(1) e have h': "h' = h1 @ [ArrayObj bs]" by simp
  have "n \<le> length h1" using s "1.prems"(3) by simp
  moreover have "\<forall>b \<in> refs (ArrayObj bs). n \<le> b \<and> b \<le> length h1"
    using s "1.prems"(3) by fastforce
  ultimately show ?case unfolding h'
    using c by (rule_tac closedFrom_snoc)
next
  case (2 h)
  then show ?case by simp
next
  case (3 nd ns h)
  obtain b h1 where nd: "allocNode nd h = (b, h1)" by (cases "allocNode nd h")
  obtain bs h2 where e: "allocEach ns h1 = (bs, h2)" by (cases "allocEach ns h1")
  from "3.IH"(1) [OF nd "3.prems"(2,3)] have c: "closedFrom n h1" .
  from alloc_shape(3) [OF nd] "3.prems"(3) have "n \<le> length h1" by auto
  from "3.IH"(2) [OF nd [symmetric] e c this] have "closedFrom n h2" .
  with "3.prems"(1) nd e show ?case by simp
next
  case (4 k v ty pa l i e cs h)
  show ?case
  proof (cases cs)
    case None
    with "4.prems"(1) have h': "h' = h @ [NodeObj k v ty pa l i e None]" by simp
    have "\<forall>b \<in> refs (NodeObj k v ty pa l i e None). n \<le> b \<and> b \<le> length h" by simp
    with "4.prems"(2,3) show ?thesis unfolding h'
      by (rule_tac closedFrom_snoc)
  next
    case (Some ch)
    obtain ca h1 where c: "allocNodes ch h = (ca, h1)" by (cases "allocNodes ch h")
    from "4.IH" [OF Some c "4.prems"(2,3)] have cl: "closedFrom n h1" .
    from alloc_shape(1) [OF c] have s: "length h \<le> ca" "ca < length h1" by auto
    from "4.prems"(1) Some c have h': "h' = h1 @ [NodeObj k v ty pa l i e (Some ca)]" by simp
    have "n \<le> length h1" using s "4.prems"(3) by simp
    moreover have "\<forall>b \<in> refs (NodeObj k v ty pa l i e (Some ca)). n \<le> b \<and> b \<le> length h1"
      using s "4.prems"(3) by simp
    ultimately show ?thesis unfolding h'
      using cl by (rule_tac closedFrom_snoc)
  qed
qed

lemma agreeOn_sub:
  "agreeOn lo hi H (h1 @ ext) \<Longrightarrow> lo \<le> lo' \<Longrightarrow> hi' \<le> length h1 \<Longrightarrow> hi' \<le> hi \<Longrightarrow>
   agreeOn lo' hi' H h1"
  by (auto simp: agreeOn_def nth_append)

lemma agreeOn_last:
  "agreeOn lo (length (h1 @ [ob])) H (h1 @ [ob]) \<Longrightarrow> lo \<le> length h1 \<Longrightarrow>
   length h1 < length H \<and> H ! length h1 = ob"
  unfolding agreeOn_def
proof -
  assume a: "length (h1 @ [ob]) \<le> length H \<and> length (h1 @ [ob]) \<le> length (h1 @ [ob]) \<and>
    (\<forall>a. lo \<le> a \<and> a < length (h1 @ [ob]) \<longrightarrow> H ! a = (h1 @ [ob]) ! a)"
    and l: "lo \<le> length h1"
  from a have "length h1 < length H" by simp
  moreover from a l have "H ! length h1 = (h1 @ [ob]) ! length h1" by simp
  ultimately show ?thesis by simp
qed

lemma alloc_read:
  "allocNodes ns h = (a, h') \<Longrightarrow> agreeOn (length h) (length h') H h' \<Longrightarrow>
     length h' - length h \<le> f \<Longrightarrow> readNodes f H a = Some ns"
  "allocEach ns h = (as, h') \<Longrightarrow> agreeOn (length h) (length h') H h' \<Longrightarrow>
     length h' - length h \<le> f \<Longrightarrow> those (map (readNode f H) as) = Some ns"
  "allocNode nd h = (a, h') \<Longrightarrow> agreeOn (length h) (length h') H h' \<Longrightarrow>
     length h' - length h \<le> f \<Longrightarrow> readNode f H a = Some nd"
proof (induction ns h and ns h and nd h arbitrary: a h' f and as h' f and a h' f
    rule: allocNodes_allocEach_allocNode.induct)
  case (1 ns h)
  obtain bs h1 where e: "allocEach ns h = (bs, h1)" by (cases "allocEach ns h")
  from "1.prems"(1) e have h': "h' = h1 @ [ArrayObj bs]" and a: "a = length h1" by auto
  from alloc_shape(2) [OF e] have s: "length h \<le> length h1" by auto
  from "1.prems"(3) h' s obtain f' where f: "f = Suc f'" "length h1 - length h \<le> f'"
    by (cases f) auto
  from "1.prems"(2) s have l: "length h1 < length H" "H ! length h1 = ArrayObj bs"
    unfolding h' using agreeOn_last [of "length h" h1 "ArrayObj bs" H] by blast+
  from "1.prems"(2) have "agreeOn (length h) (length h1) H h1"
    unfolding h' by (rule agreeOn_sub) auto
  from "1.IH" [OF e this f(2)] show ?case
    by (simp add: f a l)
next
  case (2 h)
  then show ?case by simp
next
  case (3 nd ns h)
  obtain b h1 where nd: "allocNode nd h = (b, h1)" by (cases "allocNode nd h")
  obtain bs h2 where e: "allocEach ns h1 = (bs, h2)" by (cases "allocEach ns h1")
  from "3.prems"(1) nd e have r: "as = b # bs" "h' = h2" by auto
  from alloc_shape(3) [OF nd] have s1: "length h \<le> length h1" by auto
  from alloc_shape(2) [OF e] obtain ext where s2: "h2 = h1 @ ext" by auto
  have "agreeOn (length h) (length h1) H h1"
    using "3.prems"(2) unfolding r s2 by (rule agreeOn_sub) auto
  moreover have "length h1 - length h \<le> f" using "3.prems"(3) r s2 by simp
  ultimately have 1: "readNode f H b = Some nd" by (rule "3.IH"(1) [OF nd])
  have "agreeOn (length h1) (length h2) H h2"
    using "3.prems"(2) s1 by (auto simp: r agreeOn_def)
  moreover have "length h2 - length h1 \<le> f" using "3.prems"(3) r s1 by simp
  ultimately have 2: "those (map (readNode f H) bs) = Some ns"
    by (rule "3.IH"(2) [OF nd [symmetric] e])
  from 1 2 show ?case by (simp add: r)
next
  case (4 k v ty pa l i e cs h)
  show ?case
  proof (cases cs)
    case None
    with "4.prems"(1) have h': "h' = h @ [NodeObj k v ty pa l i e None]" and a: "a = length h"
      by auto
    from "4.prems"(3) h' obtain f' where f: "f = Suc f'" by (cases f) auto
    from "4.prems"(2) have "length h < length H" "H ! length h = NodeObj k v ty pa l i e None"
      unfolding h' using agreeOn_last [of "length h" h "NodeObj k v ty pa l i e None" H]
      by blast+
    then show ?thesis by (simp add: f a None)
  next
    case (Some ch)
    obtain ca h1 where c: "allocNodes ch h = (ca, h1)" by (cases "allocNodes ch h")
    from "4.prems"(1) Some c have h': "h' = h1 @ [NodeObj k v ty pa l i e (Some ca)]"
      and a: "a = length h1" by auto
    from alloc_shape(1) [OF c] have s: "length h \<le> length h1" by auto
    from "4.prems"(3) h' s obtain f' where f: "f = Suc f'" "length h1 - length h \<le> f'"
      by (cases f) auto
    from "4.prems"(2) s have l: "length h1 < length H"
      "H ! length h1 = NodeObj k v ty pa l i e (Some ca)"
      unfolding h' using agreeOn_last [of "length h" h1 "NodeObj k v ty pa l i e (Some ca)" H]
      by blast+
    from "4.prems"(2) have "agreeOn (length h) (length h1) H h1"
      unfolding h' by (rule agreeOn_sub) auto
    from "4.IH" [OF Some c this f(2)] show ?thesis
      by (simp add: f a l Some)
  qed
qed

lemma those_map_mono:
  "those (map r as) = Some ns \<Longrightarrow> (\<And>a n. a \<in> set as \<Longrightarrow> r a = Some n \<Longrightarrow> r' a = Some n) \<Longrightarrow>
   those (map r' as) = Some ns"
proof (induction as arbitrary: ns)
  case Nil
  then show ?case by simp
next
  case (Cons a as)
  from Cons.prems(1) obtain n ms where 1: "r a = Some n" "those (map r as) = Some ms" "ns = n # ms"
    by (auto split: option.splits)
  from Cons.prems(2) [of a n] 1 have "r' a = Some n" by simp
  moreover from Cons.IH [OF 1(2)] Cons.prems(2) have "those (map r' as) = Some ms" by simp
  ultimately show ?case using 1 by simp
qed

lemma read_mono:
  "readNodes f h a = Some t \<Longrightarrow> f \<le> g \<Longrightarrow> readNodes g (h @ ext) a = Some t"
  "readNode f h a = Some n \<Longrightarrow> f \<le> g \<Longrightarrow> readNode g (h @ ext) a = Some n"
proof (induction f h a and f h a arbitrary: t g and n g rule: readNodes_readNode.induct)
  case (1 h a)
  then show ?case by simp
next
  case (2 f h a)
  from "2.prems"(1) obtain as where a: "a < length h" "h ! a = ArrayObj as"
    "those (map (readNode f h) as) = Some t"
    by (auto split: if_splits obj.splits)
  from "2.prems"(2) obtain g' where g: "g = Suc g'" "f \<le> g'" by (cases g) auto
  have "those (map (readNode g' (h @ ext)) as) = Some t"
    using a(3)
  proof (rule those_map_mono)
    fix x n assume "x \<in> set as" "readNode f h x = Some n"
    with "2.IH" [OF a(1,2)] g show "readNode g' (h @ ext) x = Some n" by blast
  qed
  with a g show ?case by (simp add: nth_append)
next
  case (3 h a)
  then show ?case by simp
next
  case (4 f h a)
  from "4.prems"(2) obtain g' where g: "g = Suc g'" "f \<le> g'" by (cases g) auto
  from "4.prems"(1) obtain k v ty pa l i e c where a: "a < length h"
    "h ! a = NodeObj k v ty pa l i e c"
    by (auto split: if_splits obj.splits)
  show ?case
  proof (cases c)
    case None
    with "4.prems"(1) a g show ?thesis by (simp add: nth_append)
  next
    case (Some ca)
    with "4.prems"(1) a obtain ch where ch: "readNodes f h ca = Some ch"
      "n = Node k v ty pa l i e (Some ch)"
      by (auto split: option.splits)
    from "4.IH" [OF a Some ch(1) g(2)] have "readNodes g' (h @ ext) ca = Some ch" .
    with a g Some ch show ?thesis by (simp add: nth_append)
  qed
qed

lemma readNodes_SomeD:
  assumes "readNodes f H a = Some t"
  obtains as f' where "a < length H" "H ! a = ArrayObj as" "f = Suc f'"
    "those (map (readNode f' H) as) = Some t"
  using assms by (cases f) (auto split: if_splits obj.splits)

lemma readNode_SucD:
  assumes "readNode (Suc f) H a = Some n"
  obtains k v ty pa l i e c where "a < length H" "H ! a = NodeObj k v ty pa l i e c"
    "c = None \<or> (\<exists>ca ch. c = Some ca \<and> readNodes f H ca = Some ch)"
  using assms by (auto split: if_splits obj.splits option.splits)

lemma those_map_Cons:
  assumes "those (map r (a # as)) = Some ns"
  obtains n ms where "r a = Some n" "those (map r as) = Some ms" "ns = n # ms"
  using assms by (auto split: option.splits)

lemma find_total_aux:
  "(\<forall>arr t g. readNodes f h arr = Some t \<longrightarrow> f \<le> g \<longrightarrow> findNodeByPathH g h arr p \<noteq> None)
   \<and> (\<forall>as ns g. those (map (readNode f h) as) = Some ns \<longrightarrow> f \<le> g \<longrightarrow> findInH g h as p \<noteq> None)"
proof (induction f)
  case 0
  have B0: "findInH g h as p \<noteq> None" if t: "those (map (readNode 0 h) as) = Some ns" for as ns g
  proof (cases as)
    case Nil
    then show ?thesis by simp
  next
    case (Cons b bs)
    with t show ?thesis by simp
  qed
  show ?case
  proof (intro conjI allI impI)
    fix arr t g
    assume "readNodes 0 h arr = Some t"
    then show "findNodeByPathH g h arr p \<noteq> None" by simp
  next
    fix as ns g
    assume "those (map (readNode 0 h) as) = Some ns"
    then show "findInH g h as p \<noteq> None" by (rule B0)
  qed
next
  case (Suc f)
  have A: "findNodeByPathH g h arr p \<noteq> None"
    if r: "readNodes (Suc f) h arr = Some t" and g: "Suc f \<le> g" for arr t g
  proof -
    from r obtain as where a: "arr < length h" "h ! arr = ArrayObj as"
      "those (map (readNode f h) as) = Some t"
      by (auto split: if_splits obj.splits)
    from g obtain g' where g': "g = Suc g'" "f \<le> g'" by (cases g) auto
    from Suc a(3) g'(2) have "findInH g' h as p \<noteq> None" by blast
    with a g' show ?thesis by simp
  qed
  have B: "findInH g h as p \<noteq> None"
    if "those (map (readNode (Suc f) h) as) = Some ns" and g: "Suc f \<le> g" for as ns g
    using that(1)
  proof (induction as arbitrary: ns)
    case Nil
    then show ?case by simp
  next
    case (Cons a as)
    from Cons.prems obtain n ms where 1: "readNode (Suc f) h a = Some n"
      "those (map (readNode (Suc f) h) as) = Some ms"
      by (rule those_map_Cons)
    from Cons.IH [OF 1(2)] have rest: "findInH g h as p \<noteq> None" .
    from 1(1) obtain k v ty pa l i e c where a: "a < length h"
      "h ! a = NodeObj k v ty pa l i e c"
      "c = None \<or> (\<exists>ca ch. c = Some ca \<and> readNodes f h ca = Some ch)"
      by (rule readNode_SucD)
    show ?case
    proof (cases c)
      case None
      with a rest show ?thesis by simp
    next
      case (Some ca)
      with a(3) obtain ch where "readNodes f h ca = Some ch" by auto
      with Suc g have "findNodeByPathH g h ca p \<noteq> None"
        by (meson Suc_leD)
      with a Some rest show ?thesis by (auto split: option.splits)
    qed
  qed
  show ?case
  proof (intro conjI allI impI)
    fix arr t g
    assume "readNodes (Suc f) h arr = Some t" "Suc f \<le> g"
    then show "findNodeByPathH g h arr p \<noteq> None" by (rule A)
  next
    fix as ns g
    assume "those (map (readNode (Suc f) h) as) = Some ns" "Suc f \<le> g"
    then show "findInH g h as p \<noteq> None" by (rule B)
  qed
qed

lemma find_total:
  "readNodes f h arr = Some t \<Longrightarrow> f \<le> g \<Longrightarrow> findNodeByPathH g h arr p \<noteq> None"
  using find_total_aux [of f h p] by (elim conjE allE [of _ arr] allE [of _ t] allE [of _ g]) simp

lemma find_region:
  "findNodeByPathH g h arr p = Some (Some a) \<Longrightarrow> closedFrom n h \<Longrightarrow> n \<le> arr \<Longrightarrow>
     n \<le> a \<and> a < length h \<and> (\<exists>k v ty pa l i e c. h ! a = NodeObj k v ty pa l i e c)"
  "findInH g h as p = Some (Some a) \<Longrightarrow> closedFrom n h \<Longrightarrow> \<forall>x \<in> set as. n \<le> x \<Longrightarrow>
     n \<le> a \<and> a < length h \<and> (\<exists>k v ty pa l i e c. h ! a = NodeObj k v ty pa l i e c)"
proof (induction g h arr p and g h as p rule: findNodeByPathH_findInH.induct)
  case (1 h nodes p)
  then show ?case by simp
next
  case (2 f h nodes p)
  from "2.prems"(1) obtain as where a: "nodes < length h" "h ! nodes = ArrayObj as"
    "findInH f h as p = Some (Some a)"
    by (auto split: if_splits obj.splits)
  have "\<forall>x \<in> set as. n \<le> x"
    using closedFromD [OF "2.prems"(2,3) a(1)] a(2) by simp
  from "2.IH" [OF a(1,2,3) "2.prems"(2) this] show ?case .
next
  case (3 f h p)
  then show ?case by simp
next
  case (4 f h b bs p)
  from "4.prems"(1) obtain k v ty pa l i e c where b: "b < length h"
    "h ! b = NodeObj k v ty pa l i e c"
    by (auto split: if_splits obj.splits)
  from "4.prems"(3) have nb: "n \<le> b" and rest: "\<forall>x \<in> set bs. n \<le> x" by auto
  show ?case
  proof (cases "pa = p")
    case True
    with "4.prems"(1) b have "a = b" by simp
    with b nb show ?thesis by simp
  next
    case False
    show ?thesis
    proof (cases c)
      case None
      with "4.prems"(1) b False have "findInH f h bs p = Some (Some a)" by simp
      from "4.IH"(1) [OF b False None this "4.prems"(2) rest] show ?thesis .
    next
      case (Some ca)
      have nca: "n \<le> ca" using closedFromD [OF "4.prems"(2) nb b(1)] b(2) Some by simp
      show ?thesis
      proof (cases "findNodeByPathH f h ca p")
        case None
        with "4.prems"(1) b False Some show ?thesis by simp
      next
        case inner: (Some r)
        show ?thesis
        proof (cases r)
          case None
          with "4.prems"(1) b False Some inner have "findInH f h bs p = Some (Some a)" by simp
          from "4.IH"(3) [OF b False Some inner None this "4.prems"(2) rest]
          show ?thesis .
        next
          case found: (Some x)
          with "4.prems"(1) b False Some inner have "x = a" by simp
          with inner found have "findNodeByPathH f h ca p = Some (Some a)" by simp
          from "4.IH"(2) [OF b False Some this "4.prems"(2) nca] show ?thesis .
        qed
      qed
    qed
  qed
qed

lemma closedFrom_update:
  assumes "closedFrom n h" and "a < length h"
    and "\<forall>b \<in> refs ob. n \<le> b \<and> b < length h"
  shows "closedFrom n (h[a := ob])"
  unfolding closedFrom_def
proof (intro allI impI ballI)
  fix x b
  assume x: "n \<le> x \<and> x < length (h[a := ob])" and b: "b \<in> refs (h[a := ob] ! x)"
  show "n \<le> b \<and> b < length (h[a := ob])"
  proof (cases "x = a")
    case True
    with b assms(2) have "b \<in> refs ob" by simp
    with assms(3) show ?thesis by simp
  next
    case False
    with b have "b \<in> refs (h ! x)" by simp
    with assms(1) x have "n \<le> b \<and> b < length h"
      using closedFromD [of n h x b] by simp
    then show ?thesis by simp
  qed
qed

lemma update_fresh_prefix:
  assumes "h1 = h @ ext" and "length h \<le> a"
  shows "\<exists>ext'. h1[a := ob] = h @ ext'"
  using assms by (auto simp: list_update_append)

lemma freshCopy_refs:
  "freshCopy h h1 r \<Longrightarrow> length h \<le> a \<Longrightarrow> a < length h1 \<Longrightarrow> b \<in> refs (h1 ! a) \<Longrightarrow>
   length h \<le> b \<and> b < length h1"
  unfolding freshCopy_def using closedFromD by blast

lemma move_fresh:
  "freshCopy h h1 newRoot \<Longrightarrow>
   \<exists>h' r'. moveNodeH h1 newRoot opath newPath = Some (h', r') \<and> freshCopy h h' r'"
  by (simp add: moveNodeH_def)

lemma add_fresh:
  assumes fc: "freshCopy h h1 newRoot" and rd: "readNodes (length h1) h1 newRoot = Some t"
  shows "\<exists>h' r'. addNodeH h1 newRoot opath okey ovalue = Some (h', r') \<and> freshCopy h h' r'"
proof (cases "substring0 opath (lastIndexOf CHR ''.'' opath) = []")
  case False
  with fc show ?thesis by (simp add: addNodeH_def)
next
  case True
  let ?new = "NodeObj okey ovalue (typeof ovalue) okey 0 None None None"
  from rd obtain as where a: "newRoot < length h1" "h1 ! newRoot = ArrayObj as"
    by (auto elim: readNodes_SomeD)
  from fc obtain ext where ext: "h1 = h @ ext" and r: "length h \<le> newRoot"
    and cl: "closedFrom (length h) h1"
    by (auto simp: freshCopy_def)
  let ?h' = "(h1 @ [?new])[newRoot := ArrayObj (as @ [length h1])]"
  have res: "addNodeH h1 newRoot opath okey ovalue = Some (?h', newRoot)"
    using True a by (simp add: addNodeH_def Let_def nth_append)
  have "h1 @ [?new] = h @ (ext @ [?new])" using ext by simp
  then have pre: "\<exists>ext'. ?h' = h @ ext'" using r by (rule update_fresh_prefix)
  have len: "length h \<le> length h1" using ext by simp
  have c1: "closedFrom (length h) (h1 @ [?new])"
    using cl len by (rule closedFrom_snoc) simp
  have as: "\<forall>b \<in> set as. length h \<le> b \<and> b < length h1"
    using freshCopy_refs [OF fc r a(1)] a(2) by simp
  have "closedFrom (length h) ?h'"
    using c1
  proof (rule closedFrom_update)
    show "newRoot < length (h1 @ [?new])" using a(1) by simp
    show "\<forall>b \<in> refs (ArrayObj (as @ [length h1])).
        length h \<le> b \<and> b < length (h1 @ [?new])"
      using as len by auto
  qed
  with pre r a(1) have "freshCopy h ?h' newRoot"
    by (simp add: freshCopy_def)
  with res show ?thesis by blast
qed

lemma update_fresh:
  assumes fc: "freshCopy h h1 newRoot" and rd: "readNodes (length h1) h1 newRoot = Some t"
  shows "\<exists>h' r'. updateNodeH h1 newRoot opath ovalue = Some (h', r') \<and> freshCopy h h' r'"
proof -
  from fc obtain ext where ext: "h1 = h @ ext" and r: "length h \<le> newRoot"
    "newRoot < length h1" and cl: "closedFrom (length h) h1"
    by (auto simp: freshCopy_def)
  from find_total [OF rd order_refl] obtain res where
    res: "findNodeByPathH (length h1) h1 newRoot opath = Some res" by auto
  show ?thesis
  proof (cases res)
    case None
    with res fc show ?thesis by (simp add: updateNodeH_def)
  next
    case (Some a)
    from find_region(1) [OF res [unfolded Some] cl r(1)]
    obtain k v ty pa l i e c where a: "length h \<le> a" "a < length h1"
      "h1 ! a = NodeObj k v ty pa l i e c" by blast
    let ?ob = "NodeObj k ovalue (typeof ovalue) pa l i e c"
    have out: "updateNodeH h1 newRoot opath ovalue = Some (h1[a := ?ob], newRoot)"
      using res Some a by (simp add: updateNodeH_def)
    have pre: "\<exists>ext'. h1[a := ?ob] = h @ ext'" using ext a(1) by (rule update_fresh_prefix)
    have "\<forall>b \<in> refs ?ob. length h \<le> b \<and> b < length h1"
      using freshCopy_refs [OF fc a(1,2)] a(3) by simp
    with cl a(2) have "closedFrom (length h) (h1[a := ?ob])"
      by (rule closedFrom_update)
    with pre r have "freshCopy h (h1[a := ?ob]) newRoot"
      by (simp add: freshCopy_def)
    with out show ?thesis by blast
  qed
qed

lemma readNode_SomeD:
  assumes "readNode f H a = Some n"
  obtains k v ty pa l i e c where "a < length H" "H ! a = NodeObj k v ty pa l i e c"
    "key n = k"
  using assms by (cases f) (auto split: if_splits obj.splits option.splits)

lemma filterH_total:
  "those (map (readNode f H) as) = Some ns \<Longrightarrow>
   \<exists>kept. filterH H k as = Some kept \<and> set kept \<subseteq> set as"
proof (induction as arbitrary: ns)
  case Nil
  then show ?case by simp
next
  case (Cons a as)
  from Cons.prems obtain n ms where 1: "readNode f H a = Some n"
    "those (map (readNode f H) as) = Some ms"
    by (rule those_map_Cons)
  from Cons.IH [OF 1(2)] obtain kept where kept: "filterH H k as = Some kept"
    "set kept \<subseteq> set as" by blast
  from 1(1) obtain k' v ty pa l i e c where a: "a < length H"
    "H ! a = NodeObj k' v ty pa l i e c"
    by (rule readNode_SomeD)
  from a kept show ?case by auto
qed

lemma delete_fresh:
  assumes fc: "freshCopy h h1 newRoot" and rd: "readNodes (length h1) h1 newRoot = Some t"
  shows "\<exists>h' r'. deleteNodeH h1 newRoot opath = Some (h', r') \<and> freshCopy h h' r'"
proof (cases "substring0 opath (lastIndexOf CHR ''.'' opath) = []")
  case False
  with fc show ?thesis by (simp add: deleteNodeH_def)
next
  case True
  from rd obtain as f' where a: "newRoot < length h1" "h1 ! newRoot = ArrayObj as"
    "those (map (readNode f' h1) as) = Some t"
    by (rule readNodes_SomeD)
  from fc obtain ext where ext: "h1 = h @ ext" and r: "length h \<le> newRoot"
    and cl: "closedFrom (length h) h1"
    by (auto simp: freshCopy_def)
  from filterH_total [OF a(3)] obtain kept where
    kept: "filterH h1 (pop (split CHR ''.'' opath)) as = Some kept" "set kept \<subseteq> set as"
    by blast
  have res: "deleteNodeH h1 newRoot opath = Some (h1 @ [ArrayObj kept], length h1)"
    using True a kept by (simp add: deleteNodeH_def Let_def)
  have len: "length h \<le> length h1" using ext by simp
  have as: "\<forall>b \<in> set as. length h \<le> b \<and> b < length h1"
    using freshCopy_refs [OF fc r a(1)] a(2) by simp
  have "closedFrom (length h) (h1 @ [ArrayObj kept])"
    using cl len
  proof (rule closedFrom_snoc)
    show "\<forall>b \<in> refs (ArrayObj kept). length h \<le> b \<and> b \<le> length h1"
      using as kept(2) by fastforce
  qed
  with ext len have "freshCopy h (h1 @ [ArrayObj kept]) (length h1)"
    by (simp add: freshCopy_def)
  with res show ?thesis by blast
qed

lemma alloc_fresh:
  assumes "allocNodes t h = (newRoot, h1)"
  shows "freshCopy h h1 newRoot" and "readNodes (length h1) h1 newRoot = Some t"
proof -
  have "closedFrom (length h) h" by (simp add: closedFrom_def)
  with assms have "closedFrom (length h) h1" by (rule alloc_closed(1)) simp
  with alloc_shape(1) [OF assms] show "freshCopy h h1 newRoot"
    by (simp add: freshCopy_def)
  have "agreeOn (length h) (length h1) h1 h1" by (simp add: agreeOn_def)
  with assms show "readNodes (length h1) h1 newRoot = Some t"
    by (rule alloc_read(1)) simp
qed

lemma reach_fresh:
  assumes "reach h' r a" and "closedFrom n h'" and "n \<le> r"
  shows "n \<le> a"
  using assms
proof (induction rule: reach.induct)
  case reach_root
  then show ?case by simp
next
  case (reach_step a b)
  then show ?case using closedFromD [of n h' a b] by simp
qed

subsection \<open>The store and the tree as a value\<close>

lemma findInH_Cons:
  "findInH g H (b # bs) p =
     (case findInH g H [b] p of
        None \<Rightarrow> None
      | Some None \<Rightarrow> findInH g H bs p
      | Some (Some a) \<Rightarrow> Some (Some a))"
  by (simp split: obj.splits option.splits)

lemma assignFound_Cons:
  "assignFound (nd # ns) p x =
     (case assignFound [nd] p x of
        Some r \<Rightarrow> Some (r @ ns)
      | None \<Rightarrow> map_option (Cons nd) (assignFound ns p x))"
  by (cases nd) (simp split: option.splits)

lemma agreeOn_update_below:
  "agreeOn lo hi H h \<Longrightarrow> a < lo \<Longrightarrow> agreeOn lo hi (H[a := ob]) h"
  by (simp add: agreeOn_def)

lemma agreeOn_update_above:
  "agreeOn lo hi H h \<Longrightarrow> hi \<le> a \<Longrightarrow> agreeOn lo hi (H[a := ob]) h"
  by (simp add: agreeOn_def)

lemma tracks_notfound:
  "found = Some None \<Longrightarrow> assigned = None \<Longrightarrow> tracks lo hi H x found assigned rd"
  by (simp add: tracks_def)

lemma tracks_found:
  "found = Some (Some a) \<Longrightarrow> lo \<le> a \<Longrightarrow> a < hi \<Longrightarrow> H ! a = NodeObj k v ty pa l i e c \<Longrightarrow>
   assigned = Some ns' \<Longrightarrow>
   (\<And>f. hi - lo \<le> f \<Longrightarrow> rd (H[a := NodeObj k x (typeof x) pa l i e c]) f = Some ns') \<Longrightarrow>
   tracks lo hi H x found assigned rd"
  by (simp add: tracks_def)

lemma tracks_cases:
  assumes "tracks lo hi H x found assigned rd"
  obtains (notfound) "found = Some None" "assigned = None"
  | (found) a k v ty pa l i e c ns' where "found = Some (Some a)" "lo \<le> a" "a < hi"
      "H ! a = NodeObj k v ty pa l i e c" "assigned = Some ns'"
      "\<And>f. hi - lo \<le> f \<Longrightarrow> rd (H[a := NodeObj k x (typeof x) pa l i e c]) f = Some ns'"
proof (cases found)
  case None
  with assms show ?thesis by (simp add: tracks_def)
next
  case (Some r)
  show ?thesis
  proof (cases r)
    case None
    with Some assms notfound show ?thesis by (simp add: tracks_def)
  next
    case inner: (Some a)
    show ?thesis
    proof (cases "H ! a")
      case (NodeObj k v ty pa l i e c)
      with Some inner assms found [of a k v ty pa l i e c] show ?thesis
        by (auto simp: tracks_def)
    next
      case (ArrayObj as)
      with Some inner assms show ?thesis by (simp add: tracks_def)
    qed
  qed
qed

lemma those_single: "those (map r [b]) = Some ns \<Longrightarrow> \<exists>n. r b = Some n \<and> ns = [n]"
  by (auto split: option.splits)

lemma alloc_tracks:
  "allocNodes ns h = (r, h') \<Longrightarrow> agreeOn (length h) (length h') H h' \<Longrightarrow>
     length h' - length h \<le> g \<Longrightarrow>
     tracks (length h) (length h') H x (findNodeByPathH g H r p) (assignFound ns p x)
       (\<lambda>H' f. readNodes f H' r)"
  "allocEach ns h = (as, h') \<Longrightarrow> agreeOn (length h) (length h') H h' \<Longrightarrow>
     length h' - length h \<le> g \<Longrightarrow>
     tracks (length h) (length h') H x (findInH g H as p) (assignFound ns p x)
       (\<lambda>H' f. those (map (readNode f H') as))"
  "allocNode nd h = (b, h') \<Longrightarrow> agreeOn (length h) (length h') H h' \<Longrightarrow>
     length h' - length h \<le> g \<Longrightarrow>
     tracks (length h) (length h') H x (findInH g H [b] p) (assignFound [nd] p x)
       (\<lambda>H' f. those (map (readNode f H') [b]))"
proof (induction ns h and ns h and nd h arbitrary: r h' g and as h' g and b h' g
    rule: allocNodes_allocEach_allocNode.induct)
  case (1 ns h)
  obtain bs h1 where e: "allocEach ns h = (bs, h1)" by (cases "allocEach ns h")
  from "1.prems"(1) e have h': "h' = h1 @ [ArrayObj bs]" and r: "r = length h1" by auto
  from alloc_shape(2) [OF e] have s: "length h \<le> length h1" by auto
  from "1.prems"(3) h' s obtain g' where g: "g = Suc g'" "length h1 - length h \<le> g'"
    by (cases g) auto
  from "1.prems"(2) s have l: "length h1 < length H" "H ! length h1 = ArrayObj bs"
    unfolding h' using agreeOn_last [of "length h" h1 "ArrayObj bs" H] by blast+
  have ag: "agreeOn (length h) (length h1) H h1"
    using "1.prems"(2) unfolding h' by (rule agreeOn_sub) auto
  have fnd: "findNodeByPathH g H r p = findInH g' H bs p"
    using l by (simp add: g r)
  from "1.IH" [OF e ag g(2)] show ?case
  proof (cases rule: tracks_cases)
    case notfound
    then show ?thesis unfolding fnd by (rule tracks_notfound)
  next
    case (found a k v ty pa l i e c ns')
    show ?thesis unfolding fnd
      using found(1,2) _ found(4,5)
    proof (rule tracks_found)
      show "a < length h'" using found(3) h' by simp
      fix f assume "length h' - length h \<le> f"
      with h' s obtain f' where f: "f = Suc f'" "length h1 - length h \<le> f'"
        by (cases f) auto
      from found(6) [OF f(2)] l found(3)
      show "readNodes f (H[a := NodeObj k x (typeof x) pa l i e c]) r = Some ns'"
        by (simp add: f r)
    qed
  qed
next
  case (2 h)
  from "2.prems"(1) have "as = []" by simp
  then show ?case by (intro tracks_notfound) simp_all
next
  case (3 nd ns h)
  obtain b h1 where nd: "allocNode nd h = (b, h1)" by (cases "allocNode nd h")
  obtain bs h2 where e: "allocEach ns h1 = (bs, h2)" by (cases "allocEach ns h1")
  from "3.prems"(1) nd e have r: "as = b # bs" "h' = h2" by auto
  from alloc_shape(3) [OF nd] have s1: "length h \<le> length h1" by auto
  from alloc_shape(2) [OF e] obtain ext where s2: "h2 = h1 @ ext" by auto
  have ag1: "agreeOn (length h) (length h1) H h1"
    using "3.prems"(2) unfolding r s2 by (rule agreeOn_sub) auto
  have g1: "length h1 - length h \<le> g" using "3.prems"(3) r s2 by simp
  have ag2: "agreeOn (length h1) (length h2) H h2"
    using "3.prems"(2) s1 by (auto simp: r agreeOn_def)
  have g2: "length h2 - length h1 \<le> g" using "3.prems"(3) r s1 by simp
  note ih1 = "3.IH"(1) [OF nd ag1 g1]
  note ih2 = "3.IH"(2) [OF nd [symmetric] e ag2 g2]
  from ih1 show ?case
  proof (cases rule: tracks_cases)
    case (found a k v ty pa l i e c ns1)
    have fnd: "findInH g H as p = Some (Some a)"
      unfolding r by (subst findInH_Cons) (simp only: found(1) option.case)
    have asg: "assignFound (nd # ns) p x = Some (ns1 @ ns)"
      by (subst assignFound_Cons) (simp only: found(5) option.case)
    show ?thesis
      using fnd found(2) _ found(4) asg
    proof (rule tracks_found)
      show "a < length h'" using found(3) r s2 by simp
      fix f assume f: "length h' - length h \<le> f"
      let ?H = "H[a := NodeObj k x (typeof x) pa l i e c]"
      from f r s2 have "length h1 - length h \<le> f" by simp
      from those_single [OF found(6) [OF this]] obtain n' where
        1: "readNode f ?H b = Some n'" "ns1 = [n']"
        by blast
      have "agreeOn (length h1) (length h2) ?H h2"
        using ag2 found(3) by (rule agreeOn_update_below)
      moreover have "length h2 - length h1 \<le> f" using f r s1 by simp
      ultimately have "those (map (readNode f ?H) bs) = Some ns"
        by (rule alloc_read(2) [OF e])
      with 1 show "those (map (readNode f ?H) as) = Some (ns1 @ ns)"
        by (simp add: r)
    qed
  next
    case notfound
    have fnd: "findInH g H as p = findInH g H bs p"
      unfolding r by (subst findInH_Cons) (simp only: notfound(1) option.case)
    have asg: "assignFound (nd # ns) p x = map_option (Cons nd) (assignFound ns p x)"
      by (subst assignFound_Cons) (simp only: notfound(2) option.case)
    from ih2 show ?thesis
    proof (cases rule: tracks_cases)
      case notfound
      show ?thesis unfolding fnd asg
        by (rule tracks_notfound) (simp_all add: notfound)
    next
      case (found a k v ty pa l i e c ns2)
      have asg': "assignFound (nd # ns) p x = Some (nd # ns2)"
        unfolding asg by (simp add: found(5))
      show ?thesis unfolding fnd
        using found(1) _ _ found(4) asg'
      proof (rule tracks_found)
        show "length h \<le> a" using found(2) s1 by simp
        show "a < length h'" using found(3) r by simp
        fix f assume f: "length h' - length h \<le> f"
        let ?H = "H[a := NodeObj k x (typeof x) pa l i e c]"
        have "agreeOn (length h) (length h1) ?H h1"
          using ag1 found(2) by (rule agreeOn_update_above)
        moreover have "length h1 - length h \<le> f" using f r s2 by simp
        ultimately have 1: "readNode f ?H b = Some nd"
          by (rule alloc_read(3) [OF nd])
        have "length h2 - length h1 \<le> f" using f r s1 by simp
        from found(6) [OF this] 1
        show "those (map (readNode f ?H) as) = Some (nd # ns2)"
          by (simp add: r)
      qed
    qed
  qed
next
  case (4 k v ty pa l i e cs h)
  show ?case
  proof (cases cs)
    case None
    with "4.prems"(1) have h': "h' = h @ [NodeObj k v ty pa l i e None]" and b: "b = length h"
      by auto
    from "4.prems"(2) have l: "length h < length H" "H ! length h = NodeObj k v ty pa l i e None"
      unfolding h' using agreeOn_last [of "length h" h "NodeObj k v ty pa l i e None" H]
      by blast+
    show ?thesis
    proof (cases "pa = p")
      case False
      show ?thesis
        by (rule tracks_notfound) (simp_all add: b l False None)
    next
      case True
      have fnd: "findInH g H [b] p = Some (Some b)" using l True by (simp add: b)
      have asg: "assignFound [Node k v ty pa l i e cs] p x
          = Some [Node k x (typeof x) pa l i e None]"
        using True None by simp
      show ?thesis
        using fnd _ _ _ asg
      proof (rule tracks_found)
        show "length h \<le> b" "b < length h'" by (simp_all add: b h')
        show "H ! b = NodeObj k v ty pa l i e None" using l by (simp add: b)
        fix f assume "length h' - length h \<le> f"
        with h' obtain f' where f: "f = Suc f'" by (cases f) auto
        show "those (map (readNode f (H[b := NodeObj k x (typeof x) pa l i e None])) [b])
            = Some [Node k x (typeof x) pa l i e None]"
          using l by (simp add: f b)
      qed
    qed
  next
    case (Some ch)
    obtain ca h1 where c: "allocNodes ch h = (ca, h1)" by (cases "allocNodes ch h")
    from "4.prems"(1) Some c have h': "h' = h1 @ [NodeObj k v ty pa l i e (Some ca)]"
      and b: "b = length h1" by auto
    from alloc_shape(1) [OF c] have s: "length h \<le> length h1" "ca < length h1" by auto
    from "4.prems"(2) s have l: "length h1 < length H"
      "H ! length h1 = NodeObj k v ty pa l i e (Some ca)"
      unfolding h' using agreeOn_last [of "length h" h1 "NodeObj k v ty pa l i e (Some ca)" H]
      by blast+
    have ag: "agreeOn (length h) (length h1) H h1"
      using "4.prems"(2) unfolding h' by (rule agreeOn_sub) auto
    have g1: "length h1 - length h \<le> g" using "4.prems"(3) h' by simp
    show ?thesis
    proof (cases "pa = p")
      case True
      have fnd: "findInH g H [b] p = Some (Some b)" using l True by (simp add: b)
      have asg: "assignFound [Node k v ty pa l i e cs] p x
          = Some [Node k x (typeof x) pa l i e (Some ch)]"
        using True Some by simp
      show ?thesis
        using fnd _ _ _ asg
      proof (rule tracks_found)
        show "length h \<le> b" "b < length h'" using s by (simp_all add: b h')
        show "H ! b = NodeObj k v ty pa l i e (Some ca)" using l by (simp add: b)
        fix f assume "length h' - length h \<le> f"
        with h' s obtain f' where f: "f = Suc f'" "length h1 - length h \<le> f'"
          by (cases f) auto
        let ?H = "H[b := NodeObj k x (typeof x) pa l i e (Some ca)]"
        have "agreeOn (length h) (length h1) ?H h1"
          using ag by (rule agreeOn_update_above) (simp add: b)
        then have "readNodes f' ?H ca = Some ch"
          using f(2) by (rule alloc_read(1) [OF c])
        then show "those (map (readNode f ?H) [b]) = Some [Node k x (typeof x) pa l i e (Some ch)]"
          using l by (simp add: f b)
      qed
    next
      case False
      have fnd: "findInH g H [b] p =
          (case findNodeByPathH g H ca p of
             None \<Rightarrow> None | Some None \<Rightarrow> Some None | Some (Some a) \<Rightarrow> Some (Some a))"
        using l False by (simp add: b split: option.splits)
      have asg: "assignFound [Node k v ty pa l i e cs] p x =
          (case assignFound ch p x of
             Some ch' \<Rightarrow> Some [Node k v ty pa l i e (Some ch')] | None \<Rightarrow> None)"
        using False Some by (simp split: option.splits)
      from "4.IH" [OF Some c ag g1] show ?thesis
      proof (cases rule: tracks_cases)
        case notfound
        show ?thesis
          by (rule tracks_notfound) (simp_all only: fnd asg notfound option.case)
      next
        case (found a k' v' ty' pa' l' i' e' c' ch')
        have fnd': "findInH g H [b] p = Some (Some a)"
          by (simp only: fnd found(1) option.case)
        have asg': "assignFound [Node k v ty pa l i e cs] p x
            = Some [Node k v ty pa l i e (Some ch')]"
          by (simp only: asg found(5) option.case)
        show ?thesis
          using fnd' found(2) _ found(4) asg'
        proof (rule tracks_found)
          show "a < length h'" using found(3) h' by simp
          fix f assume "length h' - length h \<le> f"
          with h' s obtain f' where f: "f = Suc f'" "length h1 - length h \<le> f'"
            by (cases f) auto
          let ?H = "H[a := NodeObj k' x (typeof x) pa' l' i' e' c']"
          from found(6) [OF f(2)] have "readNodes f' ?H ca = Some ch'" .
          then show "those (map (readNode f ?H) [b]) = Some [Node k v ty pa l i e (Some ch')]"
            using l found(3) by (simp add: f b)
        qed
      qed
    qed
  qed
qed

lemma those_map_snoc:
  "those (map r (as @ [b])) =
     (case those (map r as) of
        None \<Rightarrow> None
      | Some ns \<Rightarrow> (case r b of None \<Rightarrow> None | Some n \<Rightarrow> Some (ns @ [n])))"
  by (induction as) (auto split: option.splits)

lemma filterH_read:
  "those (map (readNode f H) as) = Some ns \<Longrightarrow> filterH H k as = Some kept \<Longrightarrow>
   those (map (readNode f H) kept) = Some (filter (\<lambda>n. Some (key n) \<noteq> k) ns)"
proof (induction as arbitrary: ns kept)
  case Nil
  then show ?case by simp
next
  case (Cons a as)
  from Cons.prems(1) obtain n ms where 1: "readNode f H a = Some n"
    "those (map (readNode f H) as) = Some ms" "ns = n # ms"
    by (rule those_map_Cons)
  from 1(1) obtain k' v ty pa l i e c where a: "a < length H"
    "H ! a = NodeObj k' v ty pa l i e c" "key n = k'"
    by (rule readNode_SomeD)
  from Cons.prems(2) a obtain kept' where kept: "filterH H k as = Some kept'"
    "kept = (if Some k' \<noteq> k then a # kept' else kept')"
    by (auto split: option.splits)
  from Cons.IH [OF 1(2) kept(1)] 1 a kept(2) show ?case by simp
qed

lemma move_refines:
  assumes "allocNodes t h = (newRoot, h1)"
  shows "\<exists>h' r'. moveNodeH h1 newRoot opath newPath = Some (h', r')
     \<and> stringify h' r' = Some (moveNode t opath newPath)"
  using alloc_fresh(2) [OF assms] by (simp add: moveNodeH_def moveNode_def stringify_def)

lemma update_refines:
  assumes al: "allocNodes t h = (newRoot, h1)"
  shows "\<exists>h' r'. updateNodeH h1 newRoot opath ovalue = Some (h', r')
     \<and> stringify h' r' = Some (updateNode t opath ovalue)"
proof -
  have "agreeOn (length h) (length h1) h1 h1" by (simp add: agreeOn_def)
  moreover have "length h1 - length h \<le> length h1" by simp
  ultimately have "tracks (length h) (length h1) h1 ovalue
      (findNodeByPathH (length h1) h1 newRoot opath) (assignFound t opath ovalue)
      (\<lambda>H' f. readNodes f H' newRoot)"
    by (rule alloc_tracks(1) [OF al])
  then show ?thesis
  proof (cases rule: tracks_cases)
    case notfound
    have "updateNode t opath ovalue = t"
      by (simp add: updateNode_def notfound(2) split: option.splits)
    moreover have "updateNodeH h1 newRoot opath ovalue = Some (h1, newRoot)"
      by (simp add: updateNodeH_def notfound(1))
    ultimately show ?thesis
      using alloc_fresh(2) [OF al] by (simp add: stringify_def)
  next
    case (found a k v ty pa l i e c ns')
    from found(5) have "findNodeByPath t opath \<noteq> None"
      using assignFound_None [of t opath ovalue] by auto
    with found(5) have "updateNode t opath ovalue = ns'"
      by (auto simp: updateNode_def)
    moreover have "updateNodeH h1 newRoot opath ovalue
        = Some (h1[a := NodeObj k ovalue (typeof ovalue) pa l i e c], newRoot)"
      using found(1,3,4) by (simp add: updateNodeH_def)
    moreover have "readNodes (length h1) (h1[a := NodeObj k ovalue (typeof ovalue) pa l i e c])
        newRoot = Some ns'"
      by (rule found(6)) simp
    ultimately show ?thesis by (simp add: stringify_def)
  qed
qed

lemma delete_refines:
  assumes al: "allocNodes t h = (newRoot, h1)"
  shows "\<exists>h' r'. deleteNodeH h1 newRoot opath = Some (h', r')
     \<and> stringify h' r' = Some (deleteNode t opath)"
proof (cases "substring0 opath (lastIndexOf CHR ''.'' opath) = []")
  case False
  with alloc_fresh(2) [OF al] show ?thesis
    by (simp add: deleteNodeH_def deleteNode_def stringify_def)
next
  case True
  let ?k = "pop (split CHR ''.'' opath)"
  from alloc_fresh(2) [OF al] obtain as f' where a: "newRoot < length h1"
    "h1 ! newRoot = ArrayObj as" "length h1 = Suc f'"
    "those (map (readNode f' h1) as) = Some t"
    by (rule readNodes_SomeD)
  from filterH_total [OF a(4)] obtain kept where kept: "filterH h1 ?k as = Some kept"
    by blast
  have res: "deleteNodeH h1 newRoot opath = Some (h1 @ [ArrayObj kept], length h1)"
    using True a kept by (simp add: deleteNodeH_def Let_def)
  have "those (map (readNode f' h1) kept) = Some (filter (\<lambda>n. Some (key n) \<noteq> ?k) t)"
    using a(4) kept by (rule filterH_read)
  then have "those (map (readNode (length h1) (h1 @ [ArrayObj kept])) kept)
      = Some (filter (\<lambda>n. Some (key n) \<noteq> ?k) t)"
  proof (rule those_map_mono)
    fix x n assume "readNode f' h1 x = Some n"
    then show "readNode (length h1) (h1 @ [ArrayObj kept]) x = Some n"
      by (rule read_mono(2)) (simp add: a(3))
  qed
  then have "stringify (h1 @ [ArrayObj kept]) (length h1) = Some (deleteNode t opath)"
    using True by (simp add: stringify_def deleteNode_def Let_def)
  with res show ?thesis by blast
qed

lemma add_refines:
  assumes al: "allocNodes t h = (newRoot, h1)"
  shows "\<exists>h' r'. addNodeH h1 newRoot opath okey ovalue = Some (h', r')
     \<and> stringify h' r' = Some (addNode t opath okey ovalue)"
proof (cases "substring0 opath (lastIndexOf CHR ''.'' opath) = []")
  case False
  with alloc_fresh(2) [OF al] show ?thesis
    by (simp add: addNodeH_def addNode_def stringify_def)
next
  case True
  let ?new = "NodeObj okey ovalue (typeof ovalue) okey 0 None None None"
  obtain as h2 where e: "allocEach t h = (as, h2)" by (cases "allocEach t h")
  with al have h1: "h1 = h2 @ [ArrayObj as]" and r: "newRoot = length h2" by auto
  let ?h' = "h2 @ [ArrayObj (as @ [Suc (length h2)]), ?new]"
  have res: "addNodeH h1 newRoot opath okey ovalue = Some (?h', newRoot)"
    using True by (simp add: addNodeH_def Let_def h1 r nth_append list_update_append)
  have "agreeOn (length h) (length h2) ?h' h2"
    by (simp add: agreeOn_def nth_append)
  moreover have "length h2 - length h \<le> Suc (length h2)" by simp
  ultimately have "those (map (readNode (Suc (length h2)) ?h') as) = Some t"
    by (rule alloc_read(2) [OF e])
  moreover have "readNode (Suc (length h2)) ?h' (Suc (length h2))
      = Some (Node okey ovalue (typeof ovalue) okey 0 None None None)"
    by (simp add: nth_append)
  ultimately have "those (map (readNode (Suc (length h2)) ?h') (as @ [Suc (length h2)]))
      = Some (t @ [Node okey ovalue (typeof ovalue) okey 0 None None None])"
    by (simp only: those_map_snoc option.case)
  then have "stringify ?h' newRoot = Some (addNode t opath okey ovalue)"
    using True by (simp add: stringify_def addNode_def r nth_append)
  with res show ?thesis by blast
qed

text \<open>
  What \<open>applyEdit\<close> returns on the store holds the tree that \<open>applyEdit\<close> returns on the
  tree as a value.
\<close>

lemma applyEditH_refines:
  assumes "stringify h root = Some t"
  shows "\<exists>h' r'. applyEditH h root operation = Some (h', r')
     \<and> stringify h' r' = Some (applyEdit t operation)"
proof -
  obtain newRoot h1 where al: "allocNodes (cloneTree t) h = (newRoot, h1)"
    by (cases "allocNodes (cloneTree t) h")
  show ?thesis
  proof (cases operation)
    case (Add opath okey ovalue)
    with add_refines [OF al] assms al show ?thesis
      by (simp add: applyEditH_def)
  next
    case (Update opath ovalue)
    with update_refines [OF al] assms al show ?thesis
      by (simp add: applyEditH_def)
  next
    case (Delete opath)
    with delete_refines [OF al] assms al show ?thesis
      by (simp add: applyEditH_def)
  next
    case (Move opath newPath)
    with move_refines [OF al] assms al show ?thesis
      by (simp add: applyEditH_def)
  qed
qed

text \<open>
  C6. Let the array at \<open>root\<close> hold the tree \<open>t\<close> in the store \<open>h\<close>. Then \<open>applyEdit\<close>
  returns for every operation, and what it returns holds the edited tree; every object of
  \<open>h\<close> is in the store afterwards as it was, so \<open>root\<close> still holds \<open>t\<close>; the array returned
  is a new object, and so is every object that can be reached from it.
\<close>

theorem applyEdit_frame:
  assumes "stringify h root = Some t"
  shows "\<exists>h' r'. applyEditH h root operation = Some (h', r')
           \<and> stringify h' r' = Some (applyEdit t operation)
           \<and> take (length h) h' = h
           \<and> stringify h' root = Some t
           \<and> length h \<le> r'
           \<and> (\<forall>a. reach h' r' a \<longrightarrow> length h \<le> a)"
proof -
  obtain newRoot h1 where al: "allocNodes (cloneTree t) h = (newRoot, h1)"
    by (cases "allocNodes (cloneTree t) h")
  note fc = alloc_fresh [OF al]
  have "\<exists>h' r'. applyEditH h root operation = Some (h', r') \<and> freshCopy h h' r'"
  proof (cases operation)
    case (Add opath okey ovalue)
    with add_fresh [OF fc] assms al show ?thesis by (simp add: applyEditH_def)
  next
    case (Update opath ovalue)
    with update_fresh [OF fc] assms al show ?thesis by (simp add: applyEditH_def)
  next
    case (Delete opath)
    with delete_fresh [OF fc] assms al show ?thesis by (simp add: applyEditH_def)
  next
    case (Move opath newPath)
    with move_fresh [OF fc(1)] assms al show ?thesis by (simp add: applyEditH_def)
  qed
  then obtain h' r' where res: "applyEditH h root operation = Some (h', r')"
    and f: "freshCopy h h' r'" by blast
  from f obtain ext where ext: "h' = h @ ext" and r: "length h \<le> r'"
    and cl: "closedFrom (length h) h'"
    by (auto simp: freshCopy_def)
  have 1: "take (length h) h' = h" using ext by simp
  have 2: "stringify h' root = Some t"
    unfolding stringify_def ext
    using assms [unfolded stringify_def] by (rule read_mono(1)) simp
  have 3: "\<forall>a. reach h' r' a \<longrightarrow> length h \<le> a"
    using reach_fresh [OF _ cl r] by blast
  from applyEditH_refines [OF assms, of operation] res
  have 4: "stringify h' r' = Some (applyEdit t operation)" by auto
  from res 4 1 2 r 3 show ?thesis by blast
qed

theorem applyEdit_frame_witness:
  "stringify (snd (allocNodes (toJsonTree scenario [] 0) [])) 5 = Some (toJsonTree scenario [] 0)
   \<and> (\<exists>h' r'.
        applyEditH (snd (allocNodes (toJsonTree scenario [] 0) [])) 5 (Update ''b[1]'' (JStr ''x''))
          = Some (h', r')
        \<and> r' = 11
        \<and> take 6 h' = snd (allocNodes (toJsonTree scenario [] 0) [])
        \<and> stringify h' 5 = Some (toJsonTree scenario [] 0)
        \<and> stringify h' r'
            = Some (applyEdit (toJsonTree scenario [] 0) (Update ''b[1]'' (JStr ''x'')))
        \<and> (\<forall>a. reach h' r' a \<longrightarrow> 6 \<le> a))"
proof -
  let ?h = "snd (allocNodes (toJsonTree scenario [] 0) [])"
  let ?t = "toJsonTree scenario [] 0"
  let ?op = "Update ''b[1]'' (JStr ''x'')"
  have h: "stringify ?h 5 = Some ?t"
    by code_simp
  have l: "length ?h = 6"
    by code_simp
  from applyEdit_frame [OF h, of ?op] obtain h' r' where
    r: "applyEditH ?h 5 ?op = Some (h', r')" "stringify h' r' = Some (applyEdit ?t ?op)"
      "take (length ?h) h' = ?h" "stringify h' 5 = Some ?t"
      "\<forall>a. reach h' r' a \<longrightarrow> length ?h \<le> a"
    by blast
  have "map_option snd (applyEditH ?h 5 ?op) = Some 11"
    by code_simp
  with r(1) have r': "r' = 11" by simp
  from h r r' show ?thesis
    unfolding l by blast
qed

end
